theory Spec2Isabelle
  imports Main "HOL-Library.Log_Nat"
begin

section \<open>Characters and character classes\<close>

text \<open>
  Source strings are modelled as \<^typ>\<open>string\<close>; a \<^typ>\<open>char\<close> stands for one code
  unit in the range 0..255.  The classes below are the ECMAScript classes restricted to
  that range.
\<close>

definition is_line_terminator :: "char \<Rightarrow> bool" where
  "is_line_terminator c = (c = CHR 0x0A \<or> c = CHR 0x0D)"

definition is_space :: "char \<Rightarrow> bool" where
  "is_space c = (c = CHR 0x09 \<or> c = CHR 0x0A \<or> c = CHR 0x0B \<or> c = CHR 0x0C \<or> c = CHR 0x0D
                 \<or> c = CHR 0x20 \<or> c = CHR 0xA0)"

definition is_digit :: "char \<Rightarrow> bool" where
  "is_digit c = (48 \<le> (of_char c :: nat) \<and> (of_char c :: nat) \<le> 57)"

definition is_upper :: "char \<Rightarrow> bool" where
  "is_upper c = (65 \<le> (of_char c :: nat) \<and> (of_char c :: nat) \<le> 90)"

definition is_lower :: "char \<Rightarrow> bool" where
  "is_lower c = (97 \<le> (of_char c :: nat) \<and> (of_char c :: nat) \<le> 122)"

definition is_alpha :: "char \<Rightarrow> bool" where
  "is_alpha c = (is_upper c \<or> is_lower c)"

definition is_word :: "char \<Rightarrow> bool" where
  "is_word c = (is_alpha c \<or> is_digit c \<or> c = CHR ''_'')"

definition is_dot :: "char \<Rightarrow> bool" where
  "is_dot c = (\<not> is_line_terminator c)"

definition upper_char :: "char \<Rightarrow> char" where
  "upper_char c =
     (let n = (of_char c :: nat) in
      if is_lower c \<or> (224 \<le> n \<and> n \<le> 254 \<and> n \<noteq> 247) then char_of (n - 32) else c)"

definition lower_char :: "char \<Rightarrow> char" where
  "lower_char c =
     (let n = (of_char c :: nat) in
      if is_upper c \<or> (192 \<le> n \<and> n \<le> 222 \<and> n \<noteq> 215) then char_of (n + 32) else c)"

definition toLowerCase :: "string \<Rightarrow> string" where
  "toLowerCase s = map lower_char s"

definition toUpperCase :: "string \<Rightarrow> string" where
  "toUpperCase s = map upper_char s"

definition trim :: "string \<Rightarrow> string" where
  "trim s = rev (dropWhile is_space (rev (dropWhile is_space s)))"

fun join :: "string \<Rightarrow> string list \<Rightarrow> string" where
  "join sep [] = []"
| "join sep [x] = x"
| "join sep (x # y # ys) = x @ sep @ join sep (y # ys)"

section \<open>Regular expressions with backtracking semantics\<close>

datatype rx =
    Lit char
  | Cls "char \<Rightarrow> bool"
  | Bol
  | Eol
  | WordB
  | Eps
  | Seq rx rx
  | Alt rx rx
  | Rep nat "nat option" bool rx
  | Group nat rx
  | NegLook rx

type_synonym flags = "bool \<times> bool"
type_synonym captures = "(nat \<times> string) list"
type_synonym mstate = "char option \<times> string \<times> captures"

definition icase :: "flags \<Rightarrow> bool" where "icase f = fst f"
definition multiline :: "flags \<Rightarrow> bool" where "multiline f = snd f"

definition char_eq :: "flags \<Rightarrow> char \<Rightarrow> char \<Rightarrow> bool" where
  "char_eq f a b = (if icase f then upper_char a = upper_char b else a = b)"

definition at_bol :: "flags \<Rightarrow> char option \<Rightarrow> bool" where
  "at_bol f p = (case p of None \<Rightarrow> True | Some c \<Rightarrow> multiline f \<and> is_line_terminator c)"

definition at_eol :: "flags \<Rightarrow> string \<Rightarrow> bool" where
  "at_eol f s = (case s of [] \<Rightarrow> True | c # _ \<Rightarrow> multiline f \<and> is_line_terminator c)"

definition at_wordb :: "char option \<Rightarrow> string \<Rightarrow> bool" where
  "at_wordb p s =
     ((case p of None \<Rightarrow> False | Some c \<Rightarrow> is_word c) \<noteq>
      (case s of [] \<Rightarrow> False | c # _ \<Rightarrow> is_word c))"

primrec rsize :: "rx \<Rightarrow> nat" where
  "rsize (Lit c) = 0"
| "rsize (Cls P) = 0"
| "rsize Bol = 0"
| "rsize Eol = 0"
| "rsize WordB = 0"
| "rsize Eps = 0"
| "rsize (Seq a b) = Suc (rsize a + rsize b)"
| "rsize (Alt a b) = Suc (rsize a + rsize b)"
| "rsize (Rep mn mx g r) = Suc (rsize r)"
| "rsize (Group n r) = Suc (rsize r)"
| "rsize (NegLook r) = Suc (rsize r)"

primrec rmin :: "rx \<Rightarrow> nat" where
  "rmin (Lit c) = 0"
| "rmin (Cls P) = 0"
| "rmin Bol = 0"
| "rmin Eol = 0"
| "rmin WordB = 0"
| "rmin Eps = 0"
| "rmin (Seq a b) = 0"
| "rmin (Alt a b) = 0"
| "rmin (Rep mn mx g r) = mn"
| "rmin (Group n r) = 0"
| "rmin (NegLook r) = 0"

definition remaining :: "mstate \<Rightarrow> nat" where
  "remaining st = length (fst (snd st))"

definition dec :: "nat option \<Rightarrow> nat option" where
  "dec mx = map_option (\<lambda>m. m - 1) mx"

function ms :: "flags \<Rightarrow> rx \<Rightarrow> mstate \<Rightarrow> mstate list" where
  "ms f (Lit c) st =
     (case st of (p, s, caps) \<Rightarrow>
        (case s of [] \<Rightarrow> [] | x # xs \<Rightarrow> if char_eq f c x then [(Some x, xs, caps)] else []))"
| "ms f (Cls P) st =
     (case st of (p, s, caps) \<Rightarrow>
        (case s of [] \<Rightarrow> [] | x # xs \<Rightarrow> if P x then [(Some x, xs, caps)] else []))"
| "ms f Bol st = (if at_bol f (fst st) then [st] else [])"
| "ms f Eol st = (if at_eol f (fst (snd st)) then [st] else [])"
| "ms f WordB st = (if at_wordb (fst st) (fst (snd st)) then [st] else [])"
| "ms f Eps st = [st]"
| "ms f (Seq a b) st = concat (map (ms f b) (ms f a st))"
| "ms f (Alt a b) st = ms f a st @ ms f b st"
| "ms f (Rep mn mx g r) st =
     (let more =
        (if mx = Some 0 then []
         else concat (map (\<lambda>st'.
                if (if mn = 0 then remaining st' < remaining st else remaining st' \<le> remaining st)
                then ms f (Rep (mn - 1) (dec mx) g r) st' else [])
              (ms f r st)));
          stop = (if mn = 0 then [st] else [])
      in if g then more @ stop else stop @ more)"
| "ms f (Group n r) st =
     map (\<lambda>st'. case st' of (p', s', caps') \<Rightarrow>
            (p', s', (n, take (remaining st - length s') (fst (snd st))) # caps'))
         (ms f r st)"
| "ms f (NegLook r) st = (if ms f r st = [] then [st] else [])"
  by pat_completeness auto
termination
  by (relation "inv_image (less_than <*lex*> less_than <*lex*> less_than)
                  (\<lambda>(f, r, st). (rsize r, remaining st, rmin r))")
     (auto simp: remaining_def split: if_splits)

declare ms.simps [simp del]

text \<open>
  \<open>ms f r st\<close> lists the states in which a match of \<open>r\<close> begun in \<open>st\<close> can end, in the
  order in which a backtracking matcher tries them; a state is the character before the
  current position, the rest of the input and the capture groups.  The first element is
  the match the language reports.  In \<open>Rep\<close> an iteration of a quantifier whose remaining
  minimum is 0 must consume input (the rule of the language against empty iterations);
  the other guard, \<open>remaining st' \<le> remaining st\<close>, always holds and serves the
  termination argument.  With the flag \<open>i\<close> only literal characters are compared
  modulo case: no class that the program uses under that flag contains a letter.  A group
  keeps the text of its latest match and is not reset when a quantifier around it starts a
  new iteration; the one quantified group of the program, in the expression for
  \<open>Duration\<close>, is never read.
\<close>

definition Star :: "rx \<Rightarrow> rx" where "Star r = Rep 0 None True r"
definition Plus :: "rx \<Rightarrow> rx" where "Plus r = Rep 1 None True r"
definition PlusLazy :: "rx \<Rightarrow> rx" where "PlusLazy r = Rep 1 None False r"
definition Opt :: "rx \<Rightarrow> rx" where "Opt r = Rep 0 (Some 1) True r"

fun seqs :: "rx list \<Rightarrow> rx" where
  "seqs [] = Eps"
| "seqs [r] = r"
| "seqs (r # rs) = Seq r (seqs rs)"

fun alts :: "rx list \<Rightarrow> rx" where
  "alts [] = NegLook Eps"
| "alts [r] = r"
| "alts (r # rs) = Alt r (alts rs)"

definition str :: "string \<Rightarrow> rx" where
  "str s = seqs (map Lit s)"

definition Space :: rx where "Space = Cls is_space"
definition Digit :: rx where "Digit = Cls is_digit"
definition Dot :: rx where "Dot = Cls is_dot"
definition Word :: rx where "Word = Cls is_word"

definition f_none :: flags where "f_none = (False, False)"
definition f_i :: flags where "f_i = (True, False)"
definition f_im :: flags where "f_im = (True, True)"

definition grp :: "nat \<Rightarrow> captures \<Rightarrow> string" where
  "grp n caps = (case map_of caps n of None \<Rightarrow> [] | Some s \<Rightarrow> s)"

text \<open>The leftmost match at or after the current position: the text skipped before it,
  the matched text and the state after it.\<close>

fun search :: "flags \<Rightarrow> rx \<Rightarrow> char option \<Rightarrow> string \<Rightarrow> (string \<times> string \<times> mstate) option" where
  "search f r p [] =
     (case ms f r (p, [], []) of [] \<Rightarrow> None | m # _ \<Rightarrow> Some ([], [], m))"
| "search f r p (x # xs) =
     (case ms f r (p, x # xs, []) of
        [] \<Rightarrow> map_option (\<lambda>(pre, m). (x # pre, m)) (search f r (Some x) xs)
      | m # _ \<Rightarrow> Some ([], take (length (x # xs) - remaining m) (x # xs), m))"

definition test :: "flags \<Rightarrow> rx \<Rightarrow> string \<Rightarrow> bool" where
  "test f r s = (search f r None s \<noteq> None)"

definition match :: "flags \<Rightarrow> rx \<Rightarrow> string \<Rightarrow> captures option" where
  "match f r s = map_option (\<lambda>(pre, m, st). snd (snd st)) (search f r None s)"

text \<open>\<open>replace\<close> with a regular expression without the \<open>g\<close> flag: the first match only.\<close>

definition replace1 :: "flags \<Rightarrow> rx \<Rightarrow> (string \<Rightarrow> captures \<Rightarrow> string) \<Rightarrow> string \<Rightarrow> string" where
  "replace1 f r repl s =
     (case search f r None s of
        None \<Rightarrow> s
      | Some (pre, m, st) \<Rightarrow> pre @ repl m (snd (snd st)) @ fst (snd st))"

text \<open>\<open>replace\<close> with the \<open>g\<close> flag: every match, from left to right; after an empty match
  the search moves on by one character.\<close>

function gsub :: "flags \<Rightarrow> rx \<Rightarrow> (string \<Rightarrow> captures \<Rightarrow> string) \<Rightarrow> char option \<Rightarrow> string \<Rightarrow> string" where
  "gsub f r repl p s =
     (case ms f r (p, s, []) of
        [] \<Rightarrow> (case s of [] \<Rightarrow> [] | x # xs \<Rightarrow> x # gsub f r repl (Some x) xs)
      | st # _ \<Rightarrow>
          (if remaining st < length s
           then repl (take (length s - remaining st) s) (snd (snd st))
                  @ gsub f r repl (fst st) (fst (snd st))
           else repl [] (snd (snd st))
                  @ (case s of [] \<Rightarrow> [] | x # xs \<Rightarrow> x # gsub f r repl (Some x) xs)))"
  by pat_completeness auto
termination
  by (relation "measure (\<lambda>(f, r, repl, p, s). length s)") (auto simp: remaining_def)

declare gsub.simps [simp del]

definition replace_all :: "flags \<Rightarrow> rx \<Rightarrow> (string \<Rightarrow> captures \<Rightarrow> string) \<Rightarrow> string \<Rightarrow> string" where
  "replace_all f r repl s = gsub f r repl None s"

text \<open>\<open>split\<close> with a regular expression (capture groups are not spliced in: the one
  separator of the program has none).  The segment collected so far is \<open>acc\<close>.\<close>

function split_go :: "flags \<Rightarrow> rx \<Rightarrow> char option \<Rightarrow> string \<Rightarrow> string \<Rightarrow> string list" where
  "split_go f r p [] acc = [acc]"
| "split_go f r p (x # xs) acc =
     (case ms f r (p, x # xs, []) of
        [] \<Rightarrow> split_go f r (Some x) xs (acc @ [x])
      | st # _ \<Rightarrow>
          (if remaining st < length (x # xs)
           then acc # split_go f r (fst st) (fst (snd st)) []
           else if acc = [] then split_go f r (Some x) xs (acc @ [x])
           else acc # split_go f r p (x # xs) []))"
  by pat_completeness auto
termination
  by (relation "inv_image (less_than <*lex*> less_than)
                  (\<lambda>(f, r, p, s, acc). (length s, if acc = [] then 0 else (1::nat)))")
     (auto simp: remaining_def)

definition split :: "flags \<Rightarrow> rx \<Rightarrow> string \<Rightarrow> string list" where
  "split f r s = (if s = [] then (if ms f r (None, [], []) = [] then [[]] else [])
                  else split_go f r None s [])"


section \<open>The text-processing functions of \<open>app.js\<close>\<close>

definition NL :: string where "NL = [CHR 0x0A]"

definition const_repl :: "string \<Rightarrow> string \<Rightarrow> captures \<Rightarrow> string" where
  "const_repl t m caps = t"

definition wrap1 :: "string \<Rightarrow> string \<Rightarrow> string \<Rightarrow> captures \<Rightarrow> string" where
  \<comment> \<open>the replacement pattern \<open>a$1b\<close>\<close>
  "wrap1 a b m caps = a @ grp 1 caps @ b"

subsection \<open>renderMarkdown\<close>

definition heading_rx :: "nat \<Rightarrow> rx" where
  \<comment> \<open>\<^verbatim>\<open>/^###### (.*$)/gim\<close> for \<open>n = 6\<close>, down to \<^verbatim>\<open>/^# (.*$)/gim\<close>\<close>
  "heading_rx n = seqs [Bol, str (replicate n CHR ''#'' @ '' ''), Group 1 (Seq (Star Dot) Eol)]"

definition heading_pass :: "nat \<Rightarrow> string \<Rightarrow> string" where
  "heading_pass n html =
     replace_all f_im (heading_rx n)
       (wrap1 (''<h'' @ [char_of (48 + n)] @ ''>'') (''</h'' @ [char_of (48 + n)] @ ''>'')) html"

definition bold_italic_rx :: rx where
  \<comment> \<open>\<^verbatim>\<open>/\*\*\*(.+?)\*\*\*/gim\<close>\<close>
  "bold_italic_rx = seqs [str ''***'', Group 1 (PlusLazy Dot), str ''***'']"

definition bold_rx :: rx where
  \<comment> \<open>\<^verbatim>\<open>/\*\*(.+?)\*\*/gim\<close>\<close>
  "bold_rx = seqs [str ''**'', Group 1 (PlusLazy Dot), str ''**'']"

definition italic_rx :: rx where
  \<comment> \<open>\<^verbatim>\<open>/\*(.+?)\*/gim\<close>\<close>
  "italic_rx = seqs [str ''*'', Group 1 (PlusLazy Dot), str ''*'']"

definition bullet_rx :: rx where
  \<comment> \<open>\<^verbatim>\<open>/^\s*[-*] (.*$)/gim\<close>\<close>
  "bullet_rx = seqs [Bol, Star Space, Cls (\<lambda>c. c = CHR ''-'' \<or> c = CHR ''*''), Lit CHR '' '',
                     Group 1 (Seq (Star Dot) Eol)]"

definition numbered_rx :: rx where
  \<comment> \<open>\<^verbatim>\<open>/^\s*\d+\.\s+(.*$)/gim\<close>\<close>
  "numbered_rx = seqs [Bol, Star Space, Plus Digit, Lit CHR ''.'', Plus Space,
                       Group 1 (Seq (Star Dot) Eol)]"

definition li_rx :: rx where
  \<comment> \<open>\<^verbatim>\<open>/(<li>.*<\/li>)/gim\<close>\<close>
  "li_rx = Group 1 (seqs [str ''<li>'', Star Dot, str ''</li>''])"

definition paragraph_rx :: rx where
  \<comment> \<open>\<^verbatim>\<open>/^\s*(?!<h\d|<ul>|<li>|<\/li>|<\/ul>)(.+)$/gim\<close>\<close>
  "paragraph_rx =
     seqs [Bol, Star Space,
           NegLook (alts [Seq (str ''<h'') Digit, str ''<ul>'', str ''<li>'', str ''</li>'',
                          str ''</ul>'']),
           Group 1 (Plus Dot), Eol]"

definition escape_pass :: "string \<Rightarrow> string" where
  "escape_pass t =
     replace_all f_none (Lit CHR ''>'') (const_repl ''&gt;'')
       (replace_all f_none (Lit CHR ''<'') (const_repl ''&lt;'')
         (replace_all f_none (Lit CHR ''&'') (const_repl ''&amp;'') t))"

definition renderMarkdown :: "string \<Rightarrow> string" where
  "renderMarkdown md =
     (if md = [] then []
      else
        let html = escape_pass md;
            html = heading_pass 6 html;
            html = heading_pass 5 html;
            html = heading_pass 4 html;
            html = heading_pass 3 html;
            html = heading_pass 2 html;
            html = heading_pass 1 html;
            html = replace_all f_im bold_italic_rx (wrap1 ''<strong><em>'' ''</em></strong>'') html;
            html = replace_all f_im bold_rx (wrap1 ''<strong>'' ''</strong>'') html;
            html = replace_all f_im italic_rx (wrap1 ''<em>'' ''</em>'') html;
            html = replace_all f_im bullet_rx (wrap1 ''<li>'' ''</li>'') html;
            html = replace_all f_im numbered_rx (wrap1 ''<li>'' ''</li>'') html;
            html = replace_all f_im li_rx (wrap1 ''<ul>'' ''</ul>'') html;
            html = replace_all f_im paragraph_rx (wrap1 ''<p>'' ''</p>'') html
        in html)"

subsection \<open>toTitleCase\<close>

text \<open>The four replacements are \<^verbatim>\<open>/_/g\<close>, \<^verbatim>\<open>/([A-Za-z])-([A-Za-z])/g\<close> with both groups
  kept around a space, \<^verbatim>\<open>/\s+/g\<close>, and \<^verbatim>\<open>/\b\w/g\<close> with the match in upper case.\<close>

definition toTitleCase :: "string \<Rightarrow> string" where
  "toTitleCase text =
     (let t = trim text;
          t = replace_all f_none (Lit CHR ''_'') (const_repl '' '') t;
          t = replace_all f_none
                (seqs [Group 1 (Cls is_alpha), Lit CHR ''-'', Group 2 (Cls is_alpha)])
                (\<lambda>m caps. grp 1 caps @ '' '' @ grp 2 caps) t;
          t = replace_all f_none (Plus Space) (const_repl '' '') t;
          t = replace_all f_none (Seq WordB Word) (\<lambda>m caps. toUpperCase m) t
      in t)"

subsection \<open>stripLinksFromMarkdown\<close>

definition is_urlchar :: "char \<Rightarrow> bool" where
  \<comment> \<open>\<^verbatim>\<open>[^\s)]\<close>\<close>
  "is_urlchar c = (\<not> is_space c \<and> c \<noteq> CHR '')'')"

definition scheme_rx :: rx where
  \<comment> \<open>\<^verbatim>\<open>https?:\/\/\<close>\<close>
  "scheme_rx = seqs [str ''http'', Opt (Lit CHR ''s''), str ''://'']"

definition md_link_rx :: rx where
  \<comment> \<open>\<^verbatim>\<open>/\[([^\]]+)\]\((https?:\/\/[^\s)]+)\)/gi\<close>\<close>
  "md_link_rx =
     seqs [Lit CHR ''['', Group 1 (Plus (Cls (\<lambda>c. c \<noteq> CHR '']''))), Lit CHR '']'', Lit CHR ''('',
           Group 2 (Seq scheme_rx (Plus (Cls is_urlchar))), Lit CHR '')'']"

definition autolink_rx :: rx where
  \<comment> \<open>\<^verbatim>\<open>/<https?:\/\/[^>]+>/gi\<close>\<close>
  "autolink_rx = seqs [Lit CHR ''<'', scheme_rx, Plus (Cls (\<lambda>c. c \<noteq> CHR ''>'')), Lit CHR ''>'']"

definition bare_url_rx :: rx where
  \<comment> \<open>\<^verbatim>\<open>/https?:\/\/[^\s)]+/gi\<close>\<close>
  "bare_url_rx = Seq scheme_rx (Plus (Cls is_urlchar))"

definition blanks_rx :: rx where
  \<comment> \<open>\<^verbatim>\<open>/[ \t]{2,}/g\<close>\<close>
  "blanks_rx = Rep 2 None True (Cls (\<lambda>c. c = CHR '' '' \<or> c = CHR 0x09))"

definition newlines_rx :: rx where
  \<comment> \<open>\<^verbatim>\<open>/\n{3,}/g\<close>\<close>
  "newlines_rx = Rep 3 None True (Lit CHR 0x0A)"

definition stripLinksFromMarkdown :: "string \<Rightarrow> string" where
  "stripLinksFromMarkdown md =
     (if md = [] then []
      else
        let sanitized = replace_all f_i md_link_rx (\<lambda>m caps. grp 1 caps) md;
            sanitized = replace_all f_i autolink_rx (const_repl []) sanitized;
            sanitized = replace_all f_i bare_url_rx (const_repl []) sanitized
        in trim (replace_all f_none newlines_rx (const_repl (NL @ NL))
                   (replace_all f_none blanks_rx (const_repl '' '') sanitized)))"

subsection \<open>normalizeHeadingCandidate and the region-aware sanitizer\<close>

definition hashes_rx :: rx where
  \<comment> \<open>\<^verbatim>\<open>/^#{1,6}\s+/\<close>\<close>
  "hashes_rx = seqs [Bol, Rep 1 (Some 6) True (Lit CHR ''#''), Plus Space]"

definition is_bullet3 :: "char \<Rightarrow> bool" where
  \<comment> \<open>\<^verbatim>\<open>[-*+]\<close>\<close>
  "is_bullet3 c = (c = CHR ''-'' \<or> c = CHR ''*'' \<or> c = CHR ''+'')"

definition bullet_marker_rx :: rx where
  \<comment> \<open>\<^verbatim>\<open>/^\s*[-*+]\s+/\<close>\<close>
  "bullet_marker_rx = seqs [Bol, Star Space, Cls is_bullet3, Plus Space]"

definition number_marker_rx :: rx where
  \<comment> \<open>\<^verbatim>\<open>/^\s*\d+\.\s+/\<close>\<close>
  "number_marker_rx = seqs [Bol, Star Space, Plus Digit, Lit CHR ''.'', Plus Space]"

definition normalizeHeadingCandidate :: "string \<Rightarrow> string" where
  "normalizeHeadingCandidate line =
     trim (replace_all f_none (str ''**'') (const_repl [])
            (replace1 f_none number_marker_rx (const_repl [])
              (replace1 f_none bullet_marker_rx (const_repl [])
                (replace1 f_none hashes_rx (const_repl []) line))))"

definition recommended_rx :: rx where
  \<comment> \<open>\<^verbatim>\<open>/^recommended\s*resources\b/\<close>\<close>
  "recommended_rx = seqs [Bol, str ''recommended'', Star Space, str ''resources'', WordB]"

definition closing_rx :: rx where
  \<comment> \<open>\<^verbatim>\<open>/^(duration|objectives|concrete tasks\/activities|concrete tasks|suggested project ideas|phase\s+\d+|yt tutorials|tips for staying consistent|how to measure progress|recommended next step)\b/\<close>\<close>
  "closing_rx =
     seqs [Bol,
           Group 1 (alts [str ''duration'', str ''objectives'', str ''concrete tasks/activities'',
                          str ''concrete tasks'', str ''suggested project ideas'',
                          seqs [str ''phase'', Plus Space, Plus Digit], str ''yt tutorials'',
                          str ''tips for staying consistent'', str ''how to measure progress'',
                          str ''recommended next step'']),
           WordB]"

definition line_break_rx :: rx where
  \<comment> \<open>\<^verbatim>\<open>/\r?\n/\<close>\<close>
  "line_break_rx = Seq (Opt (Lit CHR 0x0D)) (Lit CHR 0x0A)"

text \<open>The loop body of \<open>stripLinksExceptRecommendedResources\<close>: the flag
  \<open>inRecommendedResources\<close> is threaded through the lines and the output lines are
  collected in order.  The source normalises the line with the same chain of replacements
  as \<open>normalizeHeadingCandidate\<close>, followed by \<open>toLowerCase\<close>.\<close>

fun sanitize_lines :: "bool \<Rightarrow> string list \<Rightarrow> string list" where
  "sanitize_lines inRR [] = []"
| "sanitize_lines inRR (line # lines) =
     (let normalized = toLowerCase (normalizeHeadingCandidate line) in
      if test f_none recommended_rx normalized then line # sanitize_lines True lines
      else
        let inRR' = (if test f_none closing_rx normalized then False else inRR)
        in (if inRR' then line else stripLinksFromMarkdown line) # sanitize_lines inRR' lines)"

definition stripLinksExceptRecommendedResources :: "string \<Rightarrow> string" where
  "stripLinksExceptRecommendedResources md =
     (if md = [] then []
      else trim (replace_all f_none newlines_rx (const_repl (NL @ NL))
                   (join NL (sanitize_lines False (split f_none line_break_rx md)))))"

definition sanitizeSectionMarkdown :: "string \<Rightarrow> string \<Rightarrow> string" where
  \<comment> \<open>the title is tested with \<^verbatim>\<open>/recommended\s*resources/i\<close>\<close>
  "sanitizeSectionMarkdown title md =
     (if test f_i (seqs [str ''recommended'', Star Space, str ''resources'']) title then md
      else stripLinksExceptRecommendedResources md)"

definition escapeHtml :: "string \<Rightarrow> string" where
  "escapeHtml text = escape_pass text"


subsection \<open>getSubsectionTitle and splitPhaseContentIntoSubsections\<close>

definition trailing_marks_rx :: rx where
  \<comment> \<open>\<^verbatim>\<open>/[:\-]+$/\<close>\<close>
  "trailing_marks_rx = Seq (Plus (Cls (\<lambda>c. c = CHR '':'' \<or> c = CHR ''-''))) Eol"

text \<open>The table of \<open>getSubsectionTitle\<close>.  Its eleven expressions are
  \<^verbatim>\<open>/^duration(\s*\(.*\))?$/\<close>, \<^verbatim>\<open>/^objectives?$/\<close>, \<^verbatim>\<open>/^concrete tasks\/activities$/\<close>,
  \<^verbatim>\<open>/^concrete tasks$/\<close>, \<^verbatim>\<open>/^tasks\/activities$/\<close>, \<^verbatim>\<open>/^suggested project ideas?$/\<close>,
  \<^verbatim>\<open>/^recommended resources?$/\<close>, \<^verbatim>\<open>/^resources?$/\<close>, \<^verbatim>\<open>/^tips for staying consistent$/\<close>,
  \<^verbatim>\<open>/^how to measure progress$/\<close> and \<^verbatim>\<open>/^recommended next step$/\<close>.\<close>

definition patterns :: "(rx \<times> string) list" where
  "patterns =
     [(seqs [Bol, str ''duration'',
             Opt (Group 1 (seqs [Star Space, Lit CHR ''('', Star Dot, Lit CHR '')''])), Eol],
       ''Duration''),
      (seqs [Bol, str ''objective'', Opt (Lit CHR ''s''), Eol], ''Objectives''),
      (seqs [Bol, str ''concrete tasks/activities'', Eol], ''Concrete Tasks/Activities''),
      (seqs [Bol, str ''concrete tasks'', Eol], ''Concrete Tasks/Activities''),
      (seqs [Bol, str ''tasks/activities'', Eol], ''Concrete Tasks/Activities''),
      (seqs [Bol, str ''suggested project idea'', Opt (Lit CHR ''s''), Eol],
       ''Suggested Project Ideas''),
      (seqs [Bol, str ''recommended resource'', Opt (Lit CHR ''s''), Eol],
       ''Recommended Resources''),
      (seqs [Bol, str ''resource'', Opt (Lit CHR ''s''), Eol], ''Recommended Resources''),
      (seqs [Bol, str ''tips for staying consistent'', Eol], ''Tips For Staying Consistent''),
      (seqs [Bol, str ''how to measure progress'', Eol], ''How To Measure Progress''),
      (seqs [Bol, str ''recommended next step'', Eol], ''Recommended Next Step'')]"

definition normalized_title :: "string \<Rightarrow> string" where
  "normalized_title line =
     toLowerCase (replace1 f_none trailing_marks_rx (const_repl []) (normalizeHeadingCandidate line))"

definition getSubsectionTitle :: "string \<Rightarrow> string option" where
  "getSubsectionTitle line =
     map_option snd (find (\<lambda>p. test f_none (fst p) (normalized_title line)) patterns)"

record roadmap_subsection =
  sub_title :: string
  sub_lines :: "string list"

text \<open>The loop of \<open>splitPhaseContentIntoSubsections\<close> over the state
  \<open>(preface, subsections, current)\<close>.  Every title of the table is a non-empty string,
  so the test \<open>if (title)\<close> is the test for a match.\<close>

fun split_loop ::
  "string list \<Rightarrow> string list \<times> roadmap_subsection list \<times> roadmap_subsection option
     \<Rightarrow> string list \<times> roadmap_subsection list \<times> roadmap_subsection option" where
  "split_loop [] st = st"
| "split_loop (line # lines) (preface, subsections, current) =
     (case getSubsectionTitle line of
        Some title \<Rightarrow>
          split_loop lines
            (preface,
             (case current of None \<Rightarrow> subsections | Some c \<Rightarrow> subsections @ [c]),
             Some \<lparr>sub_title = title, sub_lines = []\<rparr>)
      | None \<Rightarrow>
          (case current of
             Some c \<Rightarrow>
               split_loop lines (preface, subsections, Some (c\<lparr>sub_lines := sub_lines c @ [line]\<rparr>))
           | None \<Rightarrow> split_loop lines (preface @ [line], subsections, None)))"

definition splitPhaseContentIntoSubsections :: "string list \<Rightarrow> string list \<times> roadmap_subsection list" where
  "splitPhaseContentIntoSubsections contentLines =
     (case split_loop contentLines ([], [], None) of
        (preface, subsections, current) \<Rightarrow>
          (preface, (case current of None \<Rightarrow> subsections | Some c \<Rightarrow> subsections @ [c])))"

subsection \<open>parseSectionMeta and the segmentation loop\<close>

text \<open>
  \<open>Number\<close> applied to a string of decimal digits gives the nearest double, ties to
  even, and \<open>Infinity\<close> beyond the largest double.  Doubles from \<open>2^53\<close> on are whole
  numbers, so the value is an integer or infinity.  (The language standard allows an
  implementation to round numerals of more than 20 significant digits less precisely; the
  model takes the correctly rounded value.)
\<close>

datatype jsnum = Fin int | Infinity

instantiation jsnum :: linorder
begin

fun less_eq_jsnum :: "jsnum \<Rightarrow> jsnum \<Rightarrow> bool" where
  "less_eq_jsnum (Fin a) (Fin b) = (a \<le> b)"
| "less_eq_jsnum x Infinity = True"
| "less_eq_jsnum Infinity (Fin b) = False"

definition less_jsnum :: "jsnum \<Rightarrow> jsnum \<Rightarrow> bool" where
  "less_jsnum x y = (x \<le> y \<and> \<not> y \<le> x)"

instance
proof
  fix x y z :: jsnum
  show "(x < y) = (x \<le> y \<and> \<not> y \<le> x)" by (simp add: less_jsnum_def)
  show "x \<le> x" by (cases x) simp_all
  show "x \<le> y \<Longrightarrow> y \<le> z \<Longrightarrow> x \<le> z" by (cases x; cases y; cases z) simp_all
  show "x \<le> y \<Longrightarrow> y \<le> x \<Longrightarrow> x = y" by (cases x; cases y) simp_all
  show "x \<le> y \<or> y \<le> x" by (cases x; cases y) auto
qed

end

definition int_of_digits :: "string \<Rightarrow> int" where
  "int_of_digits s = foldl (\<lambda>a c. 10 * a + (of_char c - 48)) 0 s"

definition round_double :: "int \<Rightarrow> jsnum" where
  "round_double n =
     (if n < 2 ^ 53 then Fin n
      else
        let e = nat (bitlen n - 53);
            q = n div 2 ^ e;
            r = n mod 2 ^ e;
            h = 2 ^ (e - 1);
            q' = (if h < r \<or> (r = h \<and> odd q) then q + 1 else q);
            v = q' * 2 ^ e
        in if 2 ^ 1024 \<le> v then Infinity else Fin v)"

definition Number :: "string \<Rightarrow> jsnum" where
  "Number s = round_double (int_of_digits s)"

definition MAX_SAFE_INTEGER :: jsnum where
  "MAX_SAFE_INTEGER = Fin (2 ^ 53 - 1)"

record roadmap_section =
  sec_type :: string
  phaseNumber :: jsnum
  title :: string
  content :: "string list"

definition heading_line_rx :: rx where
  \<comment> \<open>\<^verbatim>\<open>/^(#{1,6})\s+(.+)$/\<close>\<close>
  "heading_line_rx =
     seqs [Bol, Group 1 (Rep 1 (Some 6) True (Lit CHR ''#'')), Plus Space, Group 2 (Plus Dot), Eol]"

definition loose_bullet_rx :: rx where
  \<comment> \<open>\<^verbatim>\<open>/^\s*[-*+]\s*/\<close>\<close>
  "loose_bullet_rx = seqs [Bol, Star Space, Cls is_bullet3, Star Space]"

definition phase_rx :: rx where
  \<comment> \<open>\<^verbatim>\<open>/^phase\s+(\d+)\s*:/i\<close>\<close>
  "phase_rx = seqs [Bol, str ''phase'', Plus Space, Group 1 (Plus Digit), Star Space, Lit CHR '':'']"

definition yt_rx :: rx where
  \<comment> \<open>\<^verbatim>\<open>/^yt\s*tutorials\b/i\<close>\<close>
  "yt_rx = seqs [Bol, str ''yt'', Star Space, str ''tutorials'', WordB]"

definition parseSectionMeta :: "string \<Rightarrow> roadmap_section option" where
  "parseSectionMeta line =
     (let rawText = (case match f_none heading_line_rx line of
                       Some caps \<Rightarrow> grp 2 caps | None \<Rightarrow> line);
          normalized =
            trim (replace_all f_none (str ''**'') (const_repl [])
                   (replace1 f_none number_marker_rx (const_repl [])
                     (replace1 f_none loose_bullet_rx (const_repl []) rawText)))
      in case match f_i phase_rx normalized of
           Some caps \<Rightarrow>
             Some \<lparr>sec_type = ''phase'', phaseNumber = Number (grp 1 caps),
                   title = toTitleCase normalized, content = []\<rparr>
         | None \<Rightarrow>
             if test f_i yt_rx normalized
             then Some \<lparr>sec_type = ''yt'', phaseNumber = MAX_SAFE_INTEGER,
                        title = ''YT Tutorials'', content = []\<rparr>
             else None)"

text \<open>The main loop of \<open>buildCollapsibleRoadmap\<close> over the state
  \<open>(introLines, sections, currentSection)\<close>.\<close>

fun scan_lines ::
  "string list \<Rightarrow> string list \<times> roadmap_section list \<times> roadmap_section option
     \<Rightarrow> string list \<times> roadmap_section list \<times> roadmap_section option" where
  "scan_lines [] st = st"
| "scan_lines (line # lines) (introLines, sections, currentSection) =
     (case parseSectionMeta line of
        Some meta \<Rightarrow>
          scan_lines lines
            (introLines,
             (case currentSection of None \<Rightarrow> sections | Some c \<Rightarrow> sections @ [c]),
             Some meta)
      | None \<Rightarrow>
          (case currentSection of
             Some c \<Rightarrow>
               scan_lines lines (introLines, sections, Some (c\<lparr>content := content c @ [line]\<rparr>))
           | None \<Rightarrow> scan_lines lines (introLines @ [line], sections, None)))"

definition segment :: "string \<Rightarrow> string list \<times> roadmap_section list" where
  "segment md =
     (case scan_lines (split f_none line_break_rx md) ([], [], None) of
        (introLines, sections, currentSection) \<Rightarrow>
          (introLines,
           (case currentSection of None \<Rightarrow> sections | Some c \<Rightarrow> sections @ [c])))"

definition introLines :: "string \<Rightarrow> string list" where
  "introLines md = fst (segment md)"

definition sections :: "string \<Rightarrow> roadmap_section list" where
  "sections md = snd (segment md)"

subsection \<open>buildCollapsibleRoadmap\<close>

text \<open>The comparator \<open>a.phaseNumber - b.phaseNumber\<close> is negative, zero (also for
  \<open>Infinity - Infinity\<close>, which is not a number and counts as zero) or positive as the
  first number is below, equal to or above the second; the sort of the language is stable.\<close>

definition phaseSections :: "string \<Rightarrow> roadmap_section list" where
  "phaseSections md = sort_key phaseNumber (filter (\<lambda>s. sec_type s = ''phase'') (sections md))"

definition ytSections :: "string \<Rightarrow> roadmap_section list" where
  "ytSections md = filter (\<lambda>s. sec_type s = ''yt'') (sections md)"

definition otherSections :: "string \<Rightarrow> roadmap_section list" where
  "otherSections md =
     filter (\<lambda>s. sec_type s \<noteq> ''phase'' \<and> sec_type s \<noteq> ''yt'') (sections md)"

record card =
  openAttr :: string
  card_title :: string
  contentHtml :: string

definition placeholder :: string where
  "placeholder = ''_No details available._''"

text \<open>The template of a card; \<open>ind\<close> is the indentation of the template literal in the
  source (12 for a subsection card, 6 for a standalone card).\<close>

definition card_html :: "nat \<Rightarrow> card \<Rightarrow> string" where
  \<open>card_html ind c =
     NL @ replicate ind CHR '' '' @ ''<details class="roadmap-card"'' @ openAttr c @ ''>''
     @ NL @ replicate (ind + 2) CHR '' '' @ ''<summary class="roadmap-card-summary">''
     @ NL @ replicate (ind + 4) CHR '' '' @ ''<span class="roadmap-card-title">'' @ card_title c
          @ ''</span>''
     @ NL @ replicate (ind + 4) CHR '' ''
          @ ''<span class="roadmap-card-icon" aria-hidden="true"></span>''
     @ NL @ replicate (ind + 2) CHR '' '' @ ''</summary>''
     @ NL @ replicate (ind + 2) CHR '' '' @ ''<div class="roadmap-card-body">'' @ contentHtml c
          @ ''</div>''
     @ NL @ replicate ind CHR '' '' @ ''</details>''
     @ NL @ replicate (ind - 2) CHR '' ''\<close>

definition make_card :: "bool \<Rightarrow> string \<Rightarrow> string list \<Rightarrow> card" where
  "make_card open_it ttl lns =
     (let rawContentMd = trim (join NL lns);
          contentMd = sanitizeSectionMarkdown ttl rawContentMd
      in \<lparr>openAttr = (if open_it then '' open'' else []),
          card_title = escapeHtml ttl,
          contentHtml = renderMarkdown (if contentMd = [] then placeholder else contentMd)\<rparr>)"

definition fallbackSubsections :: "roadmap_section \<Rightarrow> roadmap_subsection list" where
  "fallbackSubsections sec =
     (let subsections = snd (splitPhaseContentIntoSubsections (content sec))
      in if 0 < length subsections then subsections
         else [\<lparr>sub_title = ''Details'', sub_lines = content sec\<rparr>])"

definition subsectionCards :: "nat \<Rightarrow> roadmap_section \<Rightarrow> card list" where
  "subsectionCards phaseIndex sec =
     map (\<lambda>(subIndex, sub). make_card (phaseIndex = 0 \<and> subIndex = 0) (sub_title sub) (sub_lines sub))
         (List.enumerate 0 (fallbackSubsections sec))"

definition phase_block :: "nat \<Rightarrow> roadmap_section \<Rightarrow> string" where
  \<open>phase_block phaseIndex sec =
     (let preface = fst (splitPhaseContentIntoSubsections (content sec));
          phaseTitleHtml = ''<h3 class="roadmap-phase-title">'' @ escapeHtml (title sec) @ ''</h3>'';
          prefaceMd = trim (join NL preface);
          prefaceHtml =
            (if prefaceMd \<noteq> []
             then ''<div class="roadmap-phase-preface">''
                    @ renderMarkdown (sanitizeSectionMarkdown ''Phase Intro'' prefaceMd) @ ''</div>''
             else [])
      in ''<section class="roadmap-phase-block">'' @ phaseTitleHtml @ prefaceHtml
           @ concat (map (card_html 12) (subsectionCards phaseIndex sec)) @ ''</section>'')\<close>

definition buildStandaloneCard :: "roadmap_section \<Rightarrow> bool \<Rightarrow> card" where
  "buildStandaloneCard sec openByDefault = make_card openByDefault (title sec) (content sec)"

definition phaseBlocksHtml :: "string \<Rightarrow> string" where
  "phaseBlocksHtml md =
     concat (map (\<lambda>(phaseIndex, sec). phase_block phaseIndex sec) (List.enumerate 0 (phaseSections md)))"

definition otherCards :: "string \<Rightarrow> card list" where
  "otherCards md =
     map (\<lambda>(idx, sec). buildStandaloneCard sec (length (phaseSections md) = 0 \<and> idx = 0))
         (List.enumerate 0 (otherSections md))"

definition ytCards :: "string \<Rightarrow> card list" where
  "ytCards md =
     map (\<lambda>(idx, sec). buildStandaloneCard sec
            (length (phaseSections md) = 0 \<and> length (otherSections md) = 0 \<and> idx = 0))
         (List.enumerate 0 (ytSections md))"

definition otherCardsHtml :: "string \<Rightarrow> string" where
  "otherCardsHtml md = concat (map (card_html 6) (otherCards md))"

definition ytCardsHtml :: "string \<Rightarrow> string" where
  "ytCardsHtml md = concat (map (card_html 6) (ytCards md))"

definition introHtml :: "string \<Rightarrow> string" where
  "introHtml md = renderMarkdown (trim (join NL (introLines md)))"

definition buildCollapsibleRoadmap :: "string \<Rightarrow> string" where
  "buildCollapsibleRoadmap md =
     (if md = [] then []
      else if sections md = [] then renderMarkdown md
      else introHtml md @ phaseBlocksHtml md @ otherCardsHtml md @ ytCardsHtml md)"




subsection \<open>renderRoadmapLineByLine\<close>











subsection \<open>The region policy of the sanitizer, as the specification words it\<close>

definition opens_region :: "string \<Rightarrow> bool" where
  "opens_region line = test f_none recommended_rx (toLowerCase (normalizeHeadingCandidate line))"

definition closes_region :: "string \<Rightarrow> bool" where
  "closes_region line = test f_none closing_rx (toLowerCase (normalizeHeadingCandidate line))"

text \<open>Line \<open>i\<close> lies in a region: some heading line \<open>j\<close> at or before it opens one,
  and no closing heading follows \<open>j\<close> up to \<open>i\<close>.\<close>

definition in_region :: "string list \<Rightarrow> nat \<Rightarrow> bool" where
  "in_region ls i =
     (\<exists>j \<in> {0..i}. opens_region (ls ! j) \<and> (\<forall>k \<in> {Suc j..i}. \<not> closes_region (ls ! k)))"

text \<open>A string holds a link when the expression for bare links,
  \<^verbatim>\<open>/https?:\/\/[^\s)]+/i\<close>, matches somewhere in it.\<close>

definition has_link :: "string \<Rightarrow> bool" where
  "has_link s = test f_i bare_url_rx s"

text \<open>An expression is \<open>nullable\<close> unless every match of it consumes input.\<close>

primrec nullable :: "rx \<Rightarrow> bool" where
  "nullable (Lit c) = False"
| "nullable (Cls P) = False"
| "nullable Bol = True"
| "nullable Eol = True"
| "nullable WordB = True"
| "nullable Eps = True"
| "nullable (Seq a b) = (nullable a \<and> nullable b)"
| "nullable (Alt a b) = (nullable a \<or> nullable b)"
| "nullable (Rep mn mx g r) = (mn = 0 \<or> nullable r)"
| "nullable (Group n r) = nullable r"
| "nullable (NegLook r) = True"

text \<open>A string starts with a link when it begins with \<open>http://\<close> or \<open>https://\<close>, in
  any letter case, followed by a character that is neither white space nor a closing
  parenthesis; it contains a link when one of its suffixes starts with one.\<close>

definition ci :: "char \<Rightarrow> char \<Rightarrow> bool" where
  "ci c x = char_eq f_i c x"

fun scheme_end :: "string \<Rightarrow> string option" where
  "scheme_end (a # b # c # d # e # f # g # r) =
     (if ci CHR ''h'' a \<and> ci CHR ''t'' b \<and> ci CHR ''t'' c \<and> ci CHR ''p'' d then
        (if ci CHR ''s'' e then
           (case r of
              [] \<Rightarrow> None
            | h # r' \<Rightarrow> if ci CHR '':'' f \<and> ci CHR ''/'' g \<and> ci CHR ''/'' h then Some r' else None)
         else if ci CHR '':'' e \<and> ci CHR ''/'' f \<and> ci CHR ''/'' g then Some r
         else None)
      else None)"
| "scheme_end s = None"

definition starts_link :: "string \<Rightarrow> bool" where
  "starts_link s = (case scheme_end s of None \<Rightarrow> False | Some [] \<Rightarrow> False | Some (c # r) \<Rightarrow> is_urlchar c)"

fun contains_link :: "string \<Rightarrow> bool" where
  "contains_link [] = False"
| "contains_link (x # xs) = (starts_link (x # xs) \<or> contains_link xs)"

text \<open>The two types of section that \<open>parseSectionMeta\<close> produces.\<close>

definition known_type :: "roadmap_section \<Rightarrow> bool" where
  "known_type s = (sec_type s = ''phase'' \<or> sec_type s = ''yt'')"

text \<open>A card carries the attribute \<open>open\<close>.\<close>

definition is_open :: "card \<Rightarrow> bool" where
  "is_open c = (openAttr c = '' open'')"


text \<open>Example documents.\<close>

definition doc312 :: string where
  "doc312 = ''Phase 3: c'' @ NL @ ''Phase 1: a'' @ NL @ ''Phase 2: b''"



definition doc_links :: string where
  "doc_links = ''Objectives'' @ NL @ ''- read https://a.b/c now'' @ NL
                 @ ''Recommended Resources'' @ NL @ ''- [Docs](https://example.com)''"

definition doc_lines :: "string list" where
  "doc_lines = [''Objectives'', ''- read https://a.b/c now'', ''Recommended Resources'',
                ''- [Docs](https://example.com)'']"


section \<open>Properties\<close>


subsection \<open>Facts about the matcher\<close>

lemma ms_Lit_Nil [simp]: "ms f (Lit c) (p, [], caps) = []"
  by (simp add: ms.simps)

lemma ms_Lit_Cons [simp]:
  "ms f (Lit c) (p, x # xs, caps) = (if char_eq f c x then [(Some x, xs, caps)] else [])"
  by (simp add: ms.simps)

lemma ms_Cls_Nil [simp]: "ms f (Cls P) (p, [], caps) = []"
  by (simp add: ms.simps)

lemma ms_Cls_Cons [simp]:
  "ms f (Cls P) (p, x # xs, caps) = (if P x then [(Some x, xs, caps)] else [])"
  by (simp add: ms.simps)

lemma ms_Seq [simp]: "ms f (Seq a b) st = concat (map (ms f b) (ms f a st))"
  by (simp add: ms.simps)

lemma ms_Alt [simp]: "ms f (Alt a b) st = ms f a st @ ms f b st"
  by (simp add: ms.simps)

lemma ms_Eps [simp]: "ms f Eps st = [st]"
  by (simp add: ms.simps)

lemma ms_Bol [simp]: "ms f Bol (p, s, caps) = (if at_bol f p then [(p, s, caps)] else [])"
  by (simp add: ms.simps)

lemma ms_Eol [simp]: "ms f Eol (p, s, caps) = (if at_eol f s then [(p, s, caps)] else [])"
  by (simp add: ms.simps)

lemma str_Cons2: "str (x # y # t) = Seq (Lit x) (str (y # t))"
  by (simp add: str_def)

lemma ms_str:
  "ms f (str t) (p, s, caps) =
     (if length t \<le> length s \<and> list_all2 (char_eq f) t (take (length t) s)
      then [(if t = [] then p else Some (s ! (length t - 1)), drop (length t) s, caps)] else [])"
proof (induction t arbitrary: p s)
  case Nil
  then show ?case by (simp add: str_def)
next
  case (Cons x t)
  show ?case
  proof (cases t)
    case Nil
    then show ?thesis by (cases s) (simp_all add: str_def)
  next
    case t: (Cons y t')
    show ?thesis
    proof (cases s)
      case Nil
      then show ?thesis by (simp add: t str_Cons2)
    next
      case (Cons z s')
      show ?thesis
        unfolding t Cons str_Cons2
        using Cons.IH[of "Some z" s', unfolded t]
        by simp
    qed
  qed
qed

lemma char_eq_plain [simp]: "char_eq f_none a b = (a = b)"
  by (simp add: char_eq_def f_none_def icase_def)

lemma take_eq_length: "take (length t) s = t \<Longrightarrow> length t \<le> length s"
proof -
  assume "take (length t) s = t"
  then have "length (take (length t) s) = length t" by simp
  then show ?thesis by simp
qed

lemma take_eq_last: "t \<noteq> [] \<Longrightarrow> take (length t) s = t \<Longrightarrow> s ! (length t - 1) = last t"
proof -
  assume t: "t \<noteq> []" and e: "take (length t) s = t"
  have "last t = t ! (length t - 1)" using t by (rule last_conv_nth)
  also have "\<dots> = take (length t) s ! (length t - 1)" by (simp add: e)
  also have "\<dots> = s ! (length t - 1)" using t by simp
  finally show ?thesis by simp
qed

lemma ms_str_plain:
  "t \<noteq> [] \<Longrightarrow> ms f_none (str t) (p, s, caps) =
     (if take (length t) s = t then [(Some (last t), drop (length t) s, caps)] else [])"
proof -
  assume t: "t \<noteq> []"
  have ce: "char_eq f_none = (=)" by (intro ext) simp
  show ?thesis using t take_eq_length[of t s] take_eq_last[of t s]
    by (auto simp: ms_str ce list.rel_eq)
qed

lemma ms_Opt_Lit:
  "ms f (Opt (Lit c)) (p, s, caps) =
     (case s of [] \<Rightarrow> [(p, s, caps)]
      | x # xs \<Rightarrow> if char_eq f c x then [(Some x, xs, caps), (p, s, caps)] else [(p, s, caps)])"
  by (cases s) (simp_all add: Opt_def ms.simps(9) dec_def remaining_def)

lemma at_bol_later [simp]: "\<not> multiline f \<Longrightarrow> at_bol f (Some c) = False"
  by (simp add: at_bol_def)

lemma search_anchored: "\<not> multiline f \<Longrightarrow> search f (Seq Bol r) (Some c) s = None"
  by (induction s arbitrary: c) simp_all

lemma test_anchored:
  "\<not> multiline f \<Longrightarrow> test f (Seq Bol r) s = (ms f r (None, s, []) \<noteq> [])"
  by (cases s) (auto simp: test_def search_anchored at_bol_def split: list.splits)

lemma not_multiline_none [simp]: "\<not> multiline f_none"
  by (simp add: multiline_def f_none_def)

lemma at_eol_plain [simp]: "at_eol f_none s = (s = [])"
  by (cases s) (simp_all add: at_eol_def)


lemma take_drop_Nil: "take n s = t \<Longrightarrow> drop n s = [] \<Longrightarrow> s = t"
  by (metis append_Nil2 append_take_drop_id)

lemma take_drop_single: "take n s = t \<Longrightarrow> drop n s = [c] \<Longrightarrow> s = t @ [c]"
  by (metis append_take_drop_id)

lemma test_exact:
  "t \<noteq> [] \<Longrightarrow> test f_none (seqs [Bol, str t, Eol]) s = (s = t)"
  by (auto simp: test_anchored ms_str_plain dest: take_drop_Nil split: if_splits)

lemma test_exact_opt:
  "t \<noteq> [] \<Longrightarrow> test f_none (seqs [Bol, str t, Opt (Lit c), Eol]) s = (s = t \<or> s = t @ [c])"
  by (auto simp: test_anchored ms_str_plain ms_Opt_Lit
        dest: take_drop_Nil take_drop_single split: list.splits if_splits)

lemma test_prefix:
  "t \<noteq> [] \<Longrightarrow> test f_none (Seq Bol (Seq (str t) r)) s \<Longrightarrow> take (length t) s = t"
  by (auto simp: test_anchored ms_str_plain split: if_splits)


lemma ms_consumes:
  "st' \<in> set (ms f r st) \<Longrightarrow>
   \<exists>pre. fst (snd st) = pre @ fst (snd st') \<and> (\<not> nullable r \<longrightarrow> pre \<noteq> [])"
proof (induction f r st arbitrary: st' rule: ms.induct)
  case (1 f c st)
  then show ?case by (cases st; cases "fst (snd st)") (auto simp: ms.simps(1-8,10,11) split: if_splits)
next
  case (2 f P st)
  then show ?case by (cases st; cases "fst (snd st)") (auto simp: ms.simps(1-8,10,11) split: if_splits)
next
  case (3 f st)
  then show ?case by (auto simp: ms.simps(1-8,10,11) split: if_splits)
next
  case (4 f st)
  then show ?case by (auto simp: ms.simps(1-8,10,11) split: if_splits)
next
  case (5 f st)
  then show ?case by (auto simp: ms.simps(1-8,10,11) split: if_splits)
next
  case (6 f st)
  then show ?case by (auto simp: ms.simps(1-8,10,11))
next
  case (7 f a b st)
  from 7(3) obtain x where x: "x \<in> set (ms f a st)" "st' \<in> set (ms f b x)" by auto
  from 7(1)[OF x(1)] obtain p1 where p1: "fst (snd st) = p1 @ fst (snd x)" "\<not> nullable a \<longrightarrow> p1 \<noteq> []"
    by auto
  from 7(2)[OF x] obtain p2 where p2: "fst (snd x) = p2 @ fst (snd st')" "\<not> nullable b \<longrightarrow> p2 \<noteq> []"
    by auto
  from p1 p2 have "fst (snd st) = (p1 @ p2) @ fst (snd st')" by simp
  moreover have "\<not> nullable (Seq a b) \<longrightarrow> p1 @ p2 \<noteq> []" using p1 p2 by auto
  ultimately show ?case by blast
next
  case (8 f a b st)
  from 8(3) have "st' \<in> set (ms f a st) \<or> st' \<in> set (ms f b st)" by simp
  then show ?case
  proof
    assume "st' \<in> set (ms f a st)"
    from 8(1)[OF this] show ?thesis by auto
  next
    assume "st' \<in> set (ms f b st)"
    from 8(2)[OF this] show ?thesis by auto
  qed
next
  case (9 f mn mx g r st)
  from 9(3) have "(mn = 0 \<and> st' = st) \<or>
      (mx \<noteq> Some 0 \<and> (\<exists>x \<in> set (ms f r st).
          (if mn = 0 then remaining x < remaining st else remaining x \<le> remaining st)
          \<and> st' \<in> set (ms f (Rep (mn - 1) (dec mx) g r) x)))"
    by (subst (asm) ms.simps(9)) (auto simp: Let_def split: if_splits)
  then show ?case
  proof
    assume "mn = 0 \<and> st' = st"
    then show ?thesis by simp
  next
    assume "mx \<noteq> Some 0 \<and> (\<exists>x \<in> set (ms f r st).
          (if mn = 0 then remaining x < remaining st else remaining x \<le> remaining st)
          \<and> st' \<in> set (ms f (Rep (mn - 1) (dec mx) g r) x))"
    then obtain x where mx: "mx \<noteq> Some 0" and x: "x \<in> set (ms f r st)"
      and gd: "if mn = 0 then remaining x < remaining st else remaining x \<le> remaining st"
      and s': "st' \<in> set (ms f (Rep (mn - 1) (dec mx) g r) x)" by blast
    from 9(1)[OF mx x] obtain p1 where p1: "fst (snd st) = p1 @ fst (snd x)" "\<not> nullable r \<longrightarrow> p1 \<noteq> []"
      by auto
    from 9(2)[OF mx x gd s'] obtain p2 where p2: "fst (snd x) = p2 @ fst (snd st')" by auto
    from p1 p2 have "fst (snd st) = (p1 @ p2) @ fst (snd st')" by simp
    moreover have "\<not> nullable (Rep mn mx g r) \<longrightarrow> p1 @ p2 \<noteq> []" using p1 by auto
    ultimately show ?thesis by blast
  qed
next
  case (10 f n r st)
  then show ?case by (auto simp: ms.simps(1-8,10,11))
next
  case (11 f r st)
  then show ?case by (auto simp: ms.simps(1-8,10,11) split: if_splits)
qed

lemma ms_remaining_le: "st' \<in> set (ms f r st) \<Longrightarrow> remaining st' \<le> remaining st"
  using ms_consumes[of st' f r st] by (auto simp: remaining_def)

lemma ms_remaining_less:
  "\<not> nullable r \<Longrightarrow> st' \<in> set (ms f r st) \<Longrightarrow> remaining st' < remaining st"
  using ms_consumes[of st' f r st] by (auto simp: remaining_def)

lemma ms_Star_Cls:
  "ms f (Star (Cls P)) (p, s, caps) \<noteq> []
   \<and> fst (snd (hd (ms f (Star (Cls P)) (p, s, caps)))) = dropWhile P s"
proof (induction s arbitrary: p)
  case Nil
  have "ms f (Star (Cls P)) (p, [], caps) = [(p, [], caps)]"
    unfolding Star_def by (subst ms.simps(9)) (simp add: Let_def)
  then show ?case by simp
next
  case (Cons x xs)
  have "ms f (Star (Cls P)) (p, x # xs, caps)
        = (if P x then ms f (Star (Cls P)) (Some x, xs, caps) else []) @ [(p, x # xs, caps)]"
    unfolding Star_def
    by (subst ms.simps(9)) (simp add: Let_def dec_def remaining_def)
  with Cons[of "Some x"] show ?case by (simp add: hd_append)
qed

lemma ms_Plus_Cls:
  "ms f (Plus (Cls P)) (p, s, caps)
     = (case s of [] \<Rightarrow> [] | x # xs \<Rightarrow> if P x then ms f (Star (Cls P)) (Some x, xs, caps) else [])"
  unfolding Plus_def Star_def
  by (subst ms.simps(9)) (simp add: Let_def dec_def remaining_def split: list.splits)

lemma hd_concat_map:
  "concat (map g xs) \<noteq> [] \<Longrightarrow> \<exists>x \<in> set xs. g x \<noteq> [] \<and> hd (concat (map g xs)) = hd (g x)"
  by (induction xs) (auto simp: hd_append)


lemma ms_Lit_case:
  "ms f (Lit c) (p, s, caps)
     = (case s of [] \<Rightarrow> [] | x # xs \<Rightarrow> if char_eq f c x then [(Some x, xs, caps)] else [])"
  by (cases s) simp_all

lemma ms_Star_Cls_nonempty [simp]: "ms f (Star (Cls P)) (p, s, caps) \<noteq> []"
  using ms_Star_Cls[of f P p s caps] by simp

lemma char_eq_i: "char_eq f_i c x = (upper_char c = upper_char x)"
  by (simp add: char_eq_def f_i_def icase_def)

lemma upper_scheme_chars:
  "upper_char CHR ''h'' = CHR ''H''" "upper_char CHR ''t'' = CHR ''T''"
  "upper_char CHR ''p'' = CHR ''P''" "upper_char CHR ''s'' = CHR ''S''"
  "upper_char CHR '':'' = CHR '':''" "upper_char CHR ''/'' = CHR ''/''"
  by code_simp+

lemma concat_map_if:
  "concat (map g (if c then xs else [])) = (if c then concat (map g xs) else [])"
  by simp

lemma ci_colon_not_s: "ci CHR '':'' e \<Longrightarrow> ci CHR ''s'' e \<Longrightarrow> False"
proof -
  assume "ci CHR '':'' e" "ci CHR ''s'' e"
  then have "upper_char e = CHR '':''" "upper_char e = CHR ''S''"
    by (simp_all add: ci_def char_eq_i upper_scheme_chars)
  then have "CHR '':'' = CHR ''S''" by simp
  then show False by simp
qed

lemma ms_http:
  "ms f_i (str ''http'') (p, a # b # c # d # t, caps)
     = (if ci CHR ''h'' a \<and> ci CHR ''t'' b \<and> ci CHR ''t'' c \<and> ci CHR ''p'' d
        then [(Some d, t, caps)] else [])"
  by (simp add: str_def ci_def)

lemma ms_http_short:
  "length s < 4 \<Longrightarrow> ms f_i (str ''http'') (p, s, caps) = []"
  by (simp add: ms_str)

lemma ms_colon_slashes:
  "ms f_i (str ''://'') (q, t, caps)
     = (case t of
          e # f # g # r \<Rightarrow> if ci CHR '':'' e \<and> ci CHR ''/'' f \<and> ci CHR ''/'' g
                           then [(Some g, r, caps)] else []
        | _ \<Rightarrow> [])"
  by (simp add: str_def ci_def ms_Lit_case split: list.splits)

lemma ms_scheme:
  "ms f_i scheme_rx (p, a # b # c # d # e # f # g # r, caps)
     = (if ci CHR ''h'' a \<and> ci CHR ''t'' b \<and> ci CHR ''t'' c \<and> ci CHR ''p'' d
        then (if ci CHR ''s'' e
              then (case r of
                      [] \<Rightarrow> []
                    | h # r' \<Rightarrow> if ci CHR '':'' f \<and> ci CHR ''/'' g \<and> ci CHR ''/'' h
                                 then [(Some h, r', caps)] else [])
              else if ci CHR '':'' e \<and> ci CHR ''/'' f \<and> ci CHR ''/'' g
                   then [(Some g, r, caps)] else [])
        else [])"
proof -
  have sc: "scheme_rx = Seq (str ''http'') (Seq (Opt (Lit CHR ''s'')) (str ''://''))"
    by (simp add: scheme_rx_def)
  show ?thesis
    using ci_colon_not_s[of e]
    by (cases r) (auto simp: sc ms_http ms_Opt_Lit ms_colon_slashes ci_def[symmetric])
qed

lemma ms_scheme_short:
  "length s < 7 \<Longrightarrow> ms f_i scheme_rx (p, s, caps) = []"
proof -
  assume len: "length s < 7"
  have sc: "scheme_rx = Seq (str ''http'') (Seq (Opt (Lit CHR ''s'')) (str ''://''))"
    by (simp add: scheme_rx_def)
  show ?thesis
  proof (cases "length s < 4")
    case True
    then show ?thesis by (simp add: sc ms_http_short)
  next
    case False
    then obtain a b c d t where s: "s = a # b # c # d # t"
      by (cases s; cases "tl s"; cases "tl (tl s)"; cases "tl (tl (tl s))") auto
    with len have "length t < 3" by simp
    then have t: "t = [] \<or> (\<exists>e. t = [e]) \<or> (\<exists>e f. t = [e, f])"
      by (cases t; cases "tl t"; cases "tl (tl t)") auto
    then show ?thesis
      by (auto simp: sc s ms_http ms_Opt_Lit ms_colon_slashes split: if_splits)
  qed
qed

lemma scheme_states:
  "map (\<lambda>st. fst (snd st)) (ms f_i scheme_rx (p, s, caps))
     = (case scheme_end s of None \<Rightarrow> [] | Some r \<Rightarrow> [r])"
proof (cases s rule: scheme_end.cases)
  case (1 a b c d e f g r)
  then show ?thesis by (auto simp: ms_scheme split: list.splits)
qed (simp_all add: ms_scheme_short)

lemma url_match_iff: "(ms f_i bare_url_rx (p, s, caps) \<noteq> []) = starts_link s"
proof -
  have "(ms f_i bare_url_rx (p, s, caps) \<noteq> [])
          = (\<exists>x \<in> set (ms f_i scheme_rx (p, s, caps)). ms f_i (Plus (Cls is_urlchar)) x \<noteq> [])"
    by (auto simp: bare_url_rx_def)
  also have "\<dots> = (\<exists>x \<in> set (ms f_i scheme_rx (p, s, caps)).
                      case fst (snd x) of [] \<Rightarrow> False | c # r \<Rightarrow> is_urlchar c)"
    by (intro bex_cong refl) (auto simp: ms_Plus_Cls split: list.splits if_splits)
  also have "\<dots> = (\<exists>t \<in> set (map (\<lambda>st. fst (snd st)) (ms f_i scheme_rx (p, s, caps))).
                      case t of [] \<Rightarrow> False | c # r \<Rightarrow> is_urlchar c)"
    by simp
  also have "\<dots> = starts_link s"
    unfolding scheme_states by (simp add: starts_link_def split: option.splits)
  finally show ?thesis .
qed

lemma not_nullable_url: "\<not> nullable bare_url_rx"
  by (simp add: bare_url_rx_def scheme_rx_def str_def)

lemma hd_dropWhile_not: "dropWhile P xs = [] \<or> \<not> P (hd (dropWhile P xs))"
  by (induction xs) auto

lemma url_match_end:
  assumes "ms f_i bare_url_rx (p, s, caps) = st # sts"
  shows "remaining st < length s
       \<and> (fst (snd st) = [] \<or> \<not> is_urlchar (hd (fst (snd st))))"
proof -
  have "st \<in> set (ms f_i bare_url_rx (p, s, caps))" using assms by simp
  from ms_remaining_less[OF not_nullable_url this] have lt: "remaining st < length s"
    by (simp add: remaining_def)
  have ne: "concat (map (ms f_i (Plus (Cls is_urlchar))) (ms f_i scheme_rx (p, s, caps))) \<noteq> []"
    using assms by (simp add: bare_url_rx_def)
  from hd_concat_map[OF ne] obtain x where
    x: "ms f_i (Plus (Cls is_urlchar)) x \<noteq> []"
       "hd (ms f_i bare_url_rx (p, s, caps)) = hd (ms f_i (Plus (Cls is_urlchar)) x)"
    by (auto simp: bare_url_rx_def)
  obtain q t cs where xx: "x = (q, t, cs)" by (cases x)
  from x(1) xx obtain y ys where t: "t = y # ys" "is_urlchar y"
    by (auto simp: ms_Plus_Cls split: list.splits if_splits)
  have "fst (snd (hd (ms f_i (Plus (Cls is_urlchar)) x))) = dropWhile is_urlchar ys"
    using ms_Star_Cls[of f_i is_urlchar "Some y" ys cs] by (simp add: xx t ms_Plus_Cls)
  with x(2) assms have "fst (snd st) = dropWhile is_urlchar ys" by simp
  with hd_dropWhile_not[of is_urlchar ys] lt show ?thesis by auto
qed


subsection \<open>Sections and their types\<close>

lemma parseSectionMeta_type:
  "parseSectionMeta line = Some m \<Longrightarrow> sec_type m = ''phase'' \<or> sec_type m = ''yt''"
  by (auto simp: parseSectionMeta_def Let_def split: option.splits if_splits)

lemma scan_lines_known:
  "list_all known_type secs \<Longrightarrow> (case cur of None \<Rightarrow> True | Some c \<Rightarrow> known_type c) \<Longrightarrow>
   scan_lines ls (intro, secs, cur) = (intro', secs', cur') \<Longrightarrow>
   list_all known_type secs' \<and> (case cur' of None \<Rightarrow> True | Some c \<Rightarrow> known_type c)"
proof (induction ls arbitrary: intro secs cur)
  case Nil
  then show ?case by simp
next
  case (Cons l ls)
  show ?case
  proof (cases "parseSectionMeta l")
    case None
    note pm = this
    show ?thesis
    proof (cases cur)
      case None
      with pm Cons.prems show ?thesis
        using Cons.IH[of secs None "intro @ [l]"] by simp
    next
      case (Some c)
      with pm Cons.prems show ?thesis
        using Cons.IH[of secs "Some (c\<lparr>content := content c @ [l]\<rparr>)" intro]
        by (simp add: known_type_def)
    qed
  next
    case (Some m)
    then have km: "known_type m" using parseSectionMeta_type by (simp add: known_type_def)
    show ?thesis
    proof (cases cur)
      case None
      with Some km Cons.prems show ?thesis
        using Cons.IH[of secs "Some m" intro] by simp
    next
      case (Some c)
      with \<open>parseSectionMeta l = Some m\<close> km Cons.prems show ?thesis
        using Cons.IH[of "secs @ [c]" "Some m" intro] by simp
    qed
  qed
qed

lemma sections_known: "list_all known_type (sections md)"
proof -
  obtain i s c where sc: "scan_lines (split f_none line_break_rx md) ([], [], None) = (i, s, c)"
    by (metis prod_cases3)
  from scan_lines_known[OF _ _ sc] have "list_all known_type s"
    and "case c of None \<Rightarrow> True | Some c \<Rightarrow> known_type c" by simp_all
  with sc show ?thesis
    by (simp add: sections_def segment_def split: option.splits)
qed

lemma otherSections_empty: "otherSections md = []"
  using sections_known[of md]
  by (auto simp: otherSections_def known_type_def list_all_iff filter_empty_conv)

lemma scan_lines_no_meta:
  "\<forall>l \<in> set ls. parseSectionMeta l = None \<Longrightarrow>
   scan_lines ls (intro, [], None) = (intro @ ls, [], None)"
  by (induction ls arbitrary: intro) simp_all

text \<open>
  Claim C10.  \<open>parseSectionMeta\<close> classifies a line as a phase section, as a YT Tutorials
  section or as no section; so for every document the list \<open>otherSections\<close> is empty, no
  card is built for it and \<open>otherCardsHtml\<close> is the empty string.
\<close>

theorem no_other_sections:
  "(parseSectionMeta line = None \<or>
      (\<exists>m. parseSectionMeta line = Some m \<and> (sec_type m = ''phase'' \<or> sec_type m = ''yt'')))
   \<and> otherSections md = [] \<and> otherCards md = [] \<and> otherCardsHtml md = []"
  using parseSectionMeta_type[of line]
  by (cases "parseSectionMeta line")
     (simp_all add: otherSections_empty otherCards_def otherCardsHtml_def)

text \<open>
  Claim C3.  A document none of whose lines is recognised as a section heading is rendered
  by \<open>buildCollapsibleRoadmap\<close> exactly as \<open>renderMarkdown\<close> renders it.
\<close>

theorem fallback_is_renderMarkdown:
  assumes "\<forall>line \<in> set (split f_none line_break_rx d). parseSectionMeta line = None"
  shows "buildCollapsibleRoadmap d = renderMarkdown d"
proof -
  have "sections d = []"
    using scan_lines_no_meta[OF assms, of "[]"] by (simp add: sections_def segment_def)
  then show ?thesis
    by (simp add: buildCollapsibleRoadmap_def renderMarkdown_def)
qed

lemma plan_has_no_heading:
  "list_all (\<lambda>line. parseSectionMeta line = None)
     (split f_none line_break_rx (''# Plan'' @ NL @ ''Learn phase 1 first''))"
  by code_simp

theorem fallback_is_renderMarkdown_witness:
  "list_all (\<lambda>line. parseSectionMeta line = None)
     (split f_none line_break_rx (''# Plan'' @ NL @ ''Learn phase 1 first''))
   \<and> buildCollapsibleRoadmap (''# Plan'' @ NL @ ''Learn phase 1 first'')
       = renderMarkdown (''# Plan'' @ NL @ ''Learn phase 1 first'')"
  using fallback_is_renderMarkdown[of "''# Plan'' @ NL @ ''Learn phase 1 first''"]
    plan_has_no_heading
  by (simp add: list_all_iff)

subsection \<open>The empty string\<close>


subsection \<open>List items and paragraphs in renderMarkdown\<close>

text \<open>
  Claim C7.  A bulleted line followed by a numbered line is a run of two list items.  Both
  get the wrapper \<open><ul>\<close>, but each item gets a wrapper of its own: the expression that
  wraps list items cannot match across a line break.
\<close>

theorem list_items_wrapped_separately:
  "renderMarkdown (''- a'' @ NL @ ''2. b'') = ''<ul><li>a</li></ul>'' @ NL @ ''<ul><li>b</li></ul>''"
  by code_simp

text \<open>
  Claim C8.  A line of three spaces is rendered as a paragraph that holds one space; so is
  a line of spaces before a heading.
\<close>

theorem blank_line_paragraph:
  "renderMarkdown ''   '' = ''<p> </p>''
   \<and> renderMarkdown (''   '' @ NL @ ''# x'') = ''<p> </p>'' @ NL @ ''<h1>x</h1>''"
  by code_simp


subsection \<open>The order of the phase blocks\<close>

lemma sections_empty_doc: "sections [] = []"
  by code_simp

lemma build_decomposition:
  assumes "sections md \<noteq> []"
  shows "buildCollapsibleRoadmap md = introHtml md @ phaseBlocksHtml md @ ytCardsHtml md"
proof -
  from assms have "md \<noteq> []" using sections_empty_doc by auto
  with assms show ?thesis
    by (simp add: buildCollapsibleRoadmap_def otherCardsHtml_def otherCards_def otherSections_empty)
qed

lemma sort_three:
  fixes f :: "'a \<Rightarrow> jsnum"
  assumes "map f xs = [Fin 3, Fin 1, Fin 2]"
  shows "map f (sort_key f xs) = [Fin 1, Fin 2, Fin 3]"
proof -
  from assms obtain a b c where xs: "xs = [a, b, c]" and f: "f a = Fin 3" "f b = Fin 1" "f c = Fin 2"
    by (auto simp: map_eq_Cons_conv)
  show ?thesis by (simp add: xs f)
qed

text \<open>
  Claim C2.  When a section is recognised, the output is the intro, then the phase blocks
  in the order of \<open>phaseSections\<close>, then the YT Tutorials cards.  \<open>phaseSections\<close> is
  ascending in the parsed phase numbers and holds exactly the phase sections of the
  document, sections with equal numbers in document order.  Phases numbered 3, 1, 2 in
  the document come out as 1, 2, 3.
\<close>

theorem phases_ascending:
  assumes "sections md \<noteq> []"
  shows "buildCollapsibleRoadmap md
           = introHtml md
             @ concat (map (\<lambda>(phaseIndex, sec). phase_block phaseIndex sec)
                         (List.enumerate 0 (phaseSections md)))
             @ concat (map (card_html 6) (ytCards md))
         \<and> sorted (map phaseNumber (phaseSections md))
         \<and> set (phaseSections md) = {s \<in> set (sections md). sec_type s = ''phase''}
         \<and> length (phaseSections md) = length (filter (\<lambda>s. sec_type s = ''phase'') (sections md))
         \<and> (\<forall>k. filter (\<lambda>s. phaseNumber s = k) (phaseSections md)
                  = filter (\<lambda>s. phaseNumber s = k) (filter (\<lambda>s. sec_type s = ''phase'') (sections md)))
         \<and> (map phaseNumber (filter (\<lambda>s. sec_type s = ''phase'') (sections md)) = [Fin 3, Fin 1, Fin 2]
              \<longrightarrow> map phaseNumber (phaseSections md) = [Fin 1, Fin 2, Fin 3])"
  using build_decomposition[OF assms]
  by (auto simp: phaseBlocksHtml_def ytCardsHtml_def phaseSections_def sort_key_stable sort_three)

lemma sections_doc312:
  "sections doc312 =
     [\<lparr>sec_type = ''phase'', phaseNumber = Fin 3, title = ''Phase 3: C'', content = []\<rparr>,
      \<lparr>sec_type = ''phase'', phaseNumber = Fin 1, title = ''Phase 1: A'', content = []\<rparr>,
      \<lparr>sec_type = ''phase'', phaseNumber = Fin 2, title = ''Phase 2: B'', content = []\<rparr>]"
  by code_simp

theorem phases_ascending_witness:
  "sections doc312 \<noteq> []
   \<and> map title (filter (\<lambda>s. sec_type s = ''phase'') (sections doc312))
       = [''Phase 3: C'', ''Phase 1: A'', ''Phase 2: B'']
   \<and> map phaseNumber (filter (\<lambda>s. sec_type s = ''phase'') (sections doc312)) = [Fin 3, Fin 1, Fin 2]
   \<and> map phaseNumber (phaseSections doc312) = [Fin 1, Fin 2, Fin 3]
   \<and> map title (phaseSections doc312) = [''Phase 1: A'', ''Phase 2: B'', ''Phase 3: C'']"
proof -
  have ne: "sections doc312 \<noteq> []" by (simp add: sections_doc312)
  have ns: "map phaseNumber (filter (\<lambda>s. sec_type s = ''phase'') (sections doc312)) = [Fin 3, Fin 1, Fin 2]"
    by (simp add: sections_doc312)
  from phases_ascending[OF ne] ns
  have "map phaseNumber (phaseSections doc312) = [Fin 1, Fin 2, Fin 3]" by blast
  moreover have "map title (phaseSections doc312) = [''Phase 1: A'', ''Phase 2: B'', ''Phase 3: C'']"
    by (simp add: phaseSections_def sections_doc312)
  ultimately show ?thesis using ne ns by (simp add: sections_doc312)
qed


subsection \<open>The card that starts expanded\<close>

lemma is_open_make_card [simp]: "is_open (make_card b t l) = b"
  by (simp add: is_open_def make_card_def Let_def)



lemma enumerate_eq_Nil [simp]: "(List.enumerate n xs = []) = (xs = [])"
  by (cases xs) simp_all

















subsection \<open>A superseded progressive render\<close>









subsection \<open>Canonical subsection titles\<close>

lemma test_exact_Seq:
  "t \<noteq> [] \<Longrightarrow> test f_none (Seq Bol (Seq (str t) Eol)) s = (s = t)"
  using test_exact[of t s] by simp

lemma test_exact_opt_Seq:
  "t \<noteq> [] \<Longrightarrow> test f_none (Seq Bol (Seq (str t) (Seq (Opt (Lit c)) Eol))) s = (s = t \<or> s = t @ [c])"
  using test_exact_opt[of t c s] by simp

lemma find_unique:
  "length (filter P xs) \<le> 1 \<Longrightarrow> p \<in> set xs \<Longrightarrow> P p \<Longrightarrow> find P xs = Some p"
proof (induction xs)
  case Nil
  then show ?case by simp
next
  case (Cons x xs)
  show ?case
  proof (cases "P x")
    case True
    with Cons.prems(1) have "filter P xs = []" by simp
    with Cons.prems(2,3) have "p = x" by (auto simp: filter_empty_conv)
    with True show ?thesis by simp
  next
    case False
    with Cons show ?thesis by auto
  qed
qed

lemma patterns_exclusive: "length (filter (\<lambda>p. test f_none (fst p) s) patterns) \<le> 1"
proof (cases "test f_none (fst (hd patterns)) s")
  case True
  then have "take (length ''duration'') s = ''duration''"
    using test_prefix[of "''duration''" _ s] by (simp add: patterns_def)
  then have ne: "s \<noteq> ''objective''" "s \<noteq> ''objectives''" "s \<noteq> ''concrete tasks/activities''"
    "s \<noteq> ''concrete tasks''" "s \<noteq> ''tasks/activities''" "s \<noteq> ''suggested project idea''"
    "s \<noteq> ''suggested project ideas''" "s \<noteq> ''recommended resource''" "s \<noteq> ''recommended resources''"
    "s \<noteq> ''resource''" "s \<noteq> ''resources''" "s \<noteq> ''tips for staying consistent''"
    "s \<noteq> ''how to measure progress''" "s \<noteq> ''recommended next step''"
    by auto
  then show ?thesis
    by (simp add: patterns_def test_exact_Seq test_exact_opt_Seq)
next
  case False
  then show ?thesis
    by (auto simp: patterns_def test_exact_Seq test_exact_opt_Seq)
qed

text \<open>
  Claim C9.  For every line at most one expression of the table matches its normalised
  form, and \<open>getSubsectionTitle\<close> returns the title of the expression that matches.  So
  two lines recognised by expressions with the same title (synonyms) get one and the same
  canonical title.
\<close>

theorem synonyms_share_title:
  "length (filter (\<lambda>p. test f_none (fst p) (normalized_title line)) patterns) \<le> 1
   \<and> (\<forall>p \<in> set patterns. test f_none (fst p) (normalized_title line)
          \<longrightarrow> getSubsectionTitle line = Some (snd p))
   \<and> (\<forall>p \<in> set patterns. \<forall>q \<in> set patterns.
        test f_none (fst p) (normalized_title l1) \<and> test f_none (fst q) (normalized_title l2)
        \<and> snd p = snd q \<longrightarrow> getSubsectionTitle l1 = getSubsectionTitle l2)"
proof -
  have t: "getSubsectionTitle l = Some (snd p)"
    if "p \<in> set patterns" "test f_none (fst p) (normalized_title l)" for l p
    using find_unique[OF patterns_exclusive that] by (simp add: getSubsectionTitle_def)
  show ?thesis using patterns_exclusive t by auto
qed

lemma synonym_examples:
  "map getSubsectionTitle [''Resources'', ''## Recommended Resources:'', ''- **Concrete Tasks**'',
       ''2. Tasks/Activities'', ''Concrete Tasks/Activities'', ''Objective'', ''### Objectives:'']
   = [Some ''Recommended Resources'', Some ''Recommended Resources'',
      Some ''Concrete Tasks/Activities'', Some ''Concrete Tasks/Activities'',
      Some ''Concrete Tasks/Activities'', Some ''Objectives'', Some ''Objectives'']"
  by code_simp


lemma resources_matches:
  "test f_none (fst (patterns ! 7)) (normalized_title ''Resources'')
   \<and> test f_none (fst (patterns ! 6)) (normalized_title ''## Recommended Resources:'')"
  by code_simp

theorem synonyms_share_title_witness:
  "test f_none (fst (patterns ! 7)) (normalized_title ''Resources'')
   \<and> test f_none (fst (patterns ! 6)) (normalized_title ''## Recommended Resources:'')
   \<and> getSubsectionTitle ''Resources'' = Some ''Recommended Resources''
   \<and> getSubsectionTitle ''## Recommended Resources:'' = getSubsectionTitle ''Resources''"
proof -
  have p: "patterns ! 7 \<in> set patterns" "patterns ! 6 \<in> set patterns"
    by (simp_all add: patterns_def)
  have sn: "snd (patterns ! 7) = snd (patterns ! 6)" "snd (patterns ! 7) = ''Recommended Resources''"
    by (simp_all add: patterns_def)
  note th = synonyms_share_title[of "''Resources''" "''Resources''" "''## Recommended Resources:''"]
  from th p(1) resources_matches
  have a: "getSubsectionTitle ''Resources'' = Some (snd (patterns ! 7))" by blast
  from th p resources_matches sn(1)
  have b: "getSubsectionTitle ''Resources'' = getSubsectionTitle ''## Recommended Resources:''"
    by blast
  from a b sn(2) resources_matches show ?thesis by simp
qed

subsection \<open>Links outside the Recommended Resources region\<close>

lemma upper_non_urlchars:
  "upper_char CHR 0x09 = CHR 0x09" "upper_char CHR 0x0A = CHR 0x0A" "upper_char CHR 0x0B = CHR 0x0B"
  "upper_char CHR 0x0C = CHR 0x0C" "upper_char CHR 0x0D = CHR 0x0D" "upper_char CHR 0x20 = CHR 0x20"
  "upper_char CHR 0xA0 = CHR 0xA0" "upper_char CHR '')'' = CHR '')''"
  by code_simp+

lemma ci_h_urlchar: "ci CHR ''h'' x \<Longrightarrow> is_urlchar x"
  by (auto simp: ci_def char_eq_i upper_scheme_chars is_urlchar_def is_space_def upper_non_urlchars)

lemma ci_t_urlchar: "ci CHR ''t'' x \<Longrightarrow> is_urlchar x"
  by (auto simp: ci_def char_eq_i upper_scheme_chars is_urlchar_def is_space_def upper_non_urlchars)

lemma ci_p_urlchar: "ci CHR ''p'' x \<Longrightarrow> is_urlchar x"
  by (auto simp: ci_def char_eq_i upper_scheme_chars is_urlchar_def is_space_def upper_non_urlchars)

lemma ci_s_urlchar: "ci CHR ''s'' x \<Longrightarrow> is_urlchar x"
  by (auto simp: ci_def char_eq_i upper_scheme_chars is_urlchar_def is_space_def upper_non_urlchars)

lemma ci_colon_urlchar: "ci CHR '':'' x \<Longrightarrow> is_urlchar x"
  by (auto simp: ci_def char_eq_i upper_scheme_chars is_urlchar_def is_space_def upper_non_urlchars)

lemma ci_slash_urlchar: "ci CHR ''/'' x \<Longrightarrow> is_urlchar x"
  by (auto simp: ci_def char_eq_i upper_scheme_chars is_urlchar_def is_space_def upper_non_urlchars)

lemmas ci_urlchar = ci_h_urlchar ci_t_urlchar ci_p_urlchar ci_s_urlchar ci_colon_urlchar ci_slash_urlchar

lemma starts_link_append: "starts_link a \<Longrightarrow> starts_link (a @ b)"
proof (cases a rule: scheme_end.cases)
  case (1 a1 a2 a3 a4 e f g r)
  assume "starts_link a"
  with 1 show ?thesis
    by (auto simp: starts_link_def split: if_splits list.splits option.splits)
qed (simp_all add: starts_link_def)

lemma starts_link_takeWhile: "starts_link s \<Longrightarrow> starts_link (takeWhile is_urlchar s)"
proof (cases s rule: scheme_end.cases)
  case (1 a1 a2 a3 a4 e f g r)
  assume "starts_link s"
  with 1 show ?thesis
    by (auto simp: starts_link_def ci_urlchar split: if_splits list.splits option.splits)
qed (simp_all add: starts_link_def)

lemma starts_link_first: "starts_link (x # xs) \<Longrightarrow> is_urlchar x"
  by (cases "x # xs" rule: scheme_end.cases)
     (auto simp: starts_link_def ci_urlchar split: if_splits)

lemma starts_link_mono:
  assumes "starts_link (x # ys)" "takeWhile is_urlchar xs = takeWhile is_urlchar ys @ z"
  shows "starts_link (x # xs)"
proof -
  from assms(1) have ux: "is_urlchar x" by (rule starts_link_first)
  from starts_link_takeWhile[OF assms(1)] ux
  have "starts_link (x # takeWhile is_urlchar ys)" by simp
  then have "starts_link ((x # takeWhile is_urlchar ys) @ z @ dropWhile is_urlchar xs)"
    by (rule starts_link_append)
  also have "(x # takeWhile is_urlchar ys) @ z @ dropWhile is_urlchar xs = x # xs"
    using assms(2) by (metis append.assoc append_Cons takeWhile_dropWhile_id)
  finally show ?thesis .
qed

lemma contains_link_append2: "contains_link b \<Longrightarrow> contains_link (a @ b)"
  by (induction a) auto

lemma contains_link_append1: "contains_link a \<Longrightarrow> contains_link (a @ b)"
proof (induction a)
  case Nil
  then show ?case by simp
next
  case (Cons x a)
  then show ?case using starts_link_append[of "x # a" b] by auto
qed

lemma contains_link_blank_prefix:
  "\<forall>c \<in> set w. \<not> is_urlchar c \<Longrightarrow> contains_link (w @ t) = contains_link t"
proof (induction w)
  case Nil
  then show ?case by simp
next
  case (Cons c w)
  then show ?case using starts_link_first[of c "w @ t"] by auto
qed

lemma search_contains_link: "(search f_i bare_url_rx p s \<noteq> None) = contains_link s"
proof (induction s arbitrary: p)
  case Nil
  have "ms f_i bare_url_rx (p, [], []) = []"
    using url_match_iff[of p "[]" "[]"] by (simp add: starts_link_def)
  then show ?case by simp
next
  case (Cons x xs)
  show ?case
    using url_match_iff[of p "x # xs" "[]"] Cons[of "Some x"]
    by (auto split: list.splits)
qed

lemma has_link_iff: "has_link s = contains_link s"
  using search_contains_link[of None s] by (simp add: has_link_def test_def)


lemma gsub_no_match_Nil: "ms f r (p, [], []) = [] \<Longrightarrow> gsub f r repl p [] = []"
  by (subst gsub.simps) simp

lemma gsub_no_match_Cons:
  "ms f r (p, x # xs, []) = [] \<Longrightarrow> gsub f r repl p (x # xs) = x # gsub f r repl (Some x) xs"
  by (subst gsub.simps) simp

lemma gsub_match:
  "ms f r (p, s, []) = st # sts \<Longrightarrow> remaining st < length s \<Longrightarrow>
   gsub f r repl p s
     = repl (take (length s - remaining st) s) (snd (snd st)) @ gsub f r repl (fst st) (fst (snd st))"
  by (subst gsub.simps) simp

lemma takeWhile_Cons_prefix:
  "takeWhile P xs = takeWhile P ys @ z \<Longrightarrow> \<exists>z'. takeWhile P (x # xs) = takeWhile P (x # ys) @ z'"
  by simp

lemma url_removed_prefix:
  "\<exists>z. takeWhile is_urlchar s
         = takeWhile is_urlchar (gsub f_i bare_url_rx (const_repl []) p s) @ z"
proof (induction "length s" arbitrary: p s rule: less_induct)
  case less
  show ?case
  proof (cases "ms f_i bare_url_rx (p, s, [])")
    case Nil
    show ?thesis
    proof (cases s)
      case Nil
      with \<open>ms f_i bare_url_rx (p, s, []) = []\<close> show ?thesis
        by (simp add: gsub_no_match_Nil)
    next
      case (Cons x xs)
      from less[of xs "Some x"] Cons obtain z where
        "takeWhile is_urlchar xs
           = takeWhile is_urlchar (gsub f_i bare_url_rx (const_repl []) (Some x) xs) @ z"
        by auto
      from takeWhile_Cons_prefix[OF this, of x] \<open>ms f_i bare_url_rx (p, s, []) = []\<close> Cons
      show ?thesis by (simp add: gsub_no_match_Cons)
    qed
  next
    case (Cons st sts)
    from url_match_end[OF Cons] have lt: "remaining st < length s"
      and e: "fst (snd st) = [] \<or> \<not> is_urlchar (hd (fst (snd st)))" by simp_all
    from lt have "length (fst (snd st)) < length s" by (simp add: remaining_def)
    from less[OF this, of "fst st"] obtain z where
      z: "takeWhile is_urlchar (fst (snd st))
           = takeWhile is_urlchar (gsub f_i bare_url_rx (const_repl []) (fst st) (fst (snd st))) @ z"
      by auto
    from e have "takeWhile is_urlchar (fst (snd st)) = []"
      by (cases "fst (snd st)") auto
    with z have "takeWhile is_urlchar (gsub f_i bare_url_rx (const_repl []) (fst st) (fst (snd st))) = []"
      by simp
    then show ?thesis by (simp add: gsub_match[OF Cons lt] const_repl_def)
  qed
qed

lemma url_removed: "\<not> contains_link (gsub f_i bare_url_rx (const_repl []) p s)"
proof (induction "length s" arbitrary: p s rule: less_induct)
  case less
  show ?case
  proof (cases "ms f_i bare_url_rx (p, s, [])")
    case Nil
    note nm = this
    show ?thesis
    proof (cases s)
      case Nil
      with nm show ?thesis by (simp add: gsub_no_match_Nil)
    next
      case (Cons x xs)
      have ih: "\<not> contains_link (gsub f_i bare_url_rx (const_repl []) (Some x) xs)"
        using less[of xs "Some x"] Cons by simp
      have "\<not> starts_link (x # gsub f_i bare_url_rx (const_repl []) (Some x) xs)"
      proof
        assume a: "starts_link (x # gsub f_i bare_url_rx (const_repl []) (Some x) xs)"
        from url_removed_prefix[of xs "Some x"] obtain z where
          "takeWhile is_urlchar xs
             = takeWhile is_urlchar (gsub f_i bare_url_rx (const_repl []) (Some x) xs) @ z" by auto
        from starts_link_mono[OF a this] have "starts_link (x # xs)" .
        with url_match_iff[of p "x # xs" "[]"] nm Cons show False by simp
      qed
      with ih nm Cons show ?thesis by (simp add: gsub_no_match_Cons)
    qed
  next
    case (Cons st sts)
    from url_match_end[OF Cons] have lt: "remaining st < length s" by simp
    then have "length (fst (snd st)) < length s" by (simp add: remaining_def)
    from less[OF this, of "fst st"] show ?thesis
      by (simp add: gsub_match[OF Cons lt] const_repl_def)
  qed
qed

lemma squeeze_prefix:
  assumes "\<not> nullable r" "w \<noteq> []" "\<not> is_urlchar (hd w)"
  shows "\<exists>z. takeWhile is_urlchar s = takeWhile is_urlchar (gsub f r (const_repl w) p s) @ z"
proof (induction "length s" arbitrary: p s rule: less_induct)
  case less
  show ?case
  proof (cases "ms f r (p, s, [])")
    case Nil
    note nm = this
    show ?thesis
    proof (cases s)
      case Nil
      with nm show ?thesis by (simp add: gsub_no_match_Nil)
    next
      case (Cons x xs)
      from less[of xs "Some x"] Cons obtain z where
        "takeWhile is_urlchar xs = takeWhile is_urlchar (gsub f r (const_repl w) (Some x) xs) @ z"
        by auto
      from takeWhile_Cons_prefix[OF this, of x] nm Cons
      show ?thesis by (simp add: gsub_no_match_Cons)
    qed
  next
    case (Cons st sts)
    then have "st \<in> set (ms f r (p, s, []))" by simp
    from ms_remaining_less[OF assms(1) this] have lt: "remaining st < length s"
      by (simp add: remaining_def)
    have "takeWhile is_urlchar (w @ gsub f r (const_repl w) (fst st) (fst (snd st))) = []"
      using assms(2,3) by (cases w) auto
    then show ?thesis by (simp add: gsub_match[OF Cons lt] const_repl_def)
  qed
qed

lemma squeeze_keeps_no_link:
  assumes "\<not> nullable r" "w \<noteq> []" "\<forall>c \<in> set w. \<not> is_urlchar c"
  shows "\<not> contains_link s \<Longrightarrow> \<not> contains_link (gsub f r (const_repl w) p s)"
proof (induction "length s" arbitrary: p s rule: less_induct)
  case less
  have hw: "\<not> is_urlchar (hd w)" using assms(2,3) by (cases w) auto
  show ?case
  proof (cases "ms f r (p, s, [])")
    case Nil
    note nm = this
    show ?thesis
    proof (cases s)
      case Nil
      with nm show ?thesis by (simp add: gsub_no_match_Nil)
    next
      case (Cons x xs)
      from less.prems Cons have nl: "\<not> starts_link (x # xs)" "\<not> contains_link xs" by simp_all
      have ih: "\<not> contains_link (gsub f r (const_repl w) (Some x) xs)"
        using less.hyps[of xs "Some x"] Cons nl(2) by simp
      have "\<not> starts_link (x # gsub f r (const_repl w) (Some x) xs)"
      proof
        assume a: "starts_link (x # gsub f r (const_repl w) (Some x) xs)"
        from squeeze_prefix[OF assms(1,2) hw, of xs f "Some x"] obtain z where
          "takeWhile is_urlchar xs = takeWhile is_urlchar (gsub f r (const_repl w) (Some x) xs) @ z"
          by auto
        from starts_link_mono[OF a this] nl(1) show False by simp
      qed
      with ih nm Cons show ?thesis by (simp add: gsub_no_match_Cons)
    qed
  next
    case (Cons st sts)
    then have mem: "st \<in> set (ms f r (p, s, []))" by simp
    from ms_remaining_less[OF assms(1) mem] have lt: "remaining st < length s"
      by (simp add: remaining_def)
    then have len: "length (fst (snd st)) < length s" by (simp add: remaining_def)
    from ms_consumes[OF mem] obtain pre where "s = pre @ fst (snd st)" by auto
    with less.prems contains_link_append2[of "fst (snd st)" pre]
    have "\<not> contains_link (fst (snd st))" by auto
    from less.hyps[OF len this, of "fst st"]
    show ?thesis
      by (simp add: gsub_match[OF Cons lt] const_repl_def contains_link_blank_prefix[OF assms(3)])
  qed
qed

lemma trim_keeps_no_link: "\<not> contains_link s \<Longrightarrow> \<not> contains_link (trim s)"
proof -
  assume a: "\<not> contains_link s"
  let ?d = "dropWhile is_space s"
  have "s = takeWhile is_space s @ ?d" by simp
  with a contains_link_append2[of ?d "takeWhile is_space s"] have d: "\<not> contains_link ?d" by auto
  have "?d = rev (dropWhile is_space (rev ?d)) @ rev (takeWhile is_space (rev ?d))"
    by (metis rev_append rev_rev_ident takeWhile_dropWhile_id)
  with d contains_link_append1[of "rev (dropWhile is_space (rev ?d))" "rev (takeWhile is_space (rev ?d))"]
  show ?thesis by (auto simp: trim_def)
qed

lemma not_nullable_squeezers: "\<not> nullable blanks_rx" "\<not> nullable newlines_rx"
  by (simp_all add: blanks_rx_def newlines_rx_def)

lemma blank_not_urlchar: "\<not> is_urlchar CHR '' ''" "\<not> is_urlchar CHR 0x0A"
  by (simp_all add: is_urlchar_def is_space_def)

lemma stripped_has_no_link: "\<not> has_link (stripLinksFromMarkdown md)"
proof (cases "md = []")
  case True
  then show ?thesis by (simp add: stripLinksFromMarkdown_def has_link_iff)
next
  case False
  let ?a = "replace_all f_i bare_url_rx (const_repl [])
              (replace_all f_i autolink_rx (const_repl [])
                (replace_all f_i md_link_rx (\<lambda>m caps. grp 1 caps) md))"
  have 1: "\<not> contains_link ?a" by (simp add: replace_all_def url_removed)
  have 2: "\<not> contains_link (replace_all f_none blanks_rx (const_repl '' '') ?a)"
    unfolding replace_all_def[of f_none]
    by (rule squeeze_keeps_no_link[OF not_nullable_squeezers(1)])
       (use 1 in \<open>simp_all add: blank_not_urlchar\<close>)
  have 3: "\<not> contains_link (replace_all f_none newlines_rx (const_repl (NL @ NL))
              (replace_all f_none blanks_rx (const_repl '' '') ?a))"
    unfolding replace_all_def[of f_none newlines_rx]
    by (rule squeeze_keeps_no_link[OF not_nullable_squeezers(2)])
       (use 2 in \<open>simp_all add: blank_not_urlchar NL_def\<close>)
  from trim_keeps_no_link[OF 3] False show ?thesis
    by (simp add: stripLinksFromMarkdown_def has_link_iff Let_def)
qed


lemma length_sanitize_lines: "length (sanitize_lines b ls) = length ls"
  by (induction ls arbitrary: b) (simp_all add: Let_def)

lemma ball_shift: "(\<forall>k \<in> {Suc a..Suc b}. P ((l # ls) ! k)) = (\<forall>k \<in> {a..b}. P (ls ! k))"
proof (intro iffI ballI)
  fix k
  assume h: "\<forall>k \<in> {Suc a..Suc b}. P ((l # ls) ! k)" and k: "k \<in> {a..b}"
  from k have "Suc k \<in> {Suc a..Suc b}" by simp
  with h have "P ((l # ls) ! Suc k)" by blast
  then show "P (ls ! k)" by simp
next
  fix k
  assume h: "\<forall>k \<in> {a..b}. P (ls ! k)" and k: "k \<in> {Suc a..Suc b}"
  from k obtain k' where k': "k = Suc k'" "k' \<in> {a..b}" by (cases k) auto
  with h have "P (ls ! k')" by blast
  with k' show "P ((l # ls) ! k)" by simp
qed

lemma ball_from_0:
  "(\<forall>k \<in> {0..Suc i}. P ((l # ls) ! k)) = (P l \<and> (\<forall>k \<in> {0..i}. P (ls ! k)))"
proof (intro iffI conjI ballI)
  assume h: "\<forall>k \<in> {0..Suc i}. P ((l # ls) ! k)"
  have "0 \<in> {0..Suc i}" by simp
  with h have "P ((l # ls) ! 0)" by blast
  then show "P l" by simp
next
  fix k
  assume h: "\<forall>k \<in> {0..Suc i}. P ((l # ls) ! k)" and k: "k \<in> {0..i}"
  from k have "Suc k \<in> {0..Suc i}" by simp
  with h have "P ((l # ls) ! Suc k)" by blast
  then show "P (ls ! k)" by simp
next
  fix k
  assume h: "P l \<and> (\<forall>k \<in> {0..i}. P (ls ! k))" and k: "k \<in> {0..Suc i}"
  show "P ((l # ls) ! k)"
  proof (cases k)
    case 0
    with h show ?thesis by simp
  next
    case (Suc k')
    with k have "k' \<in> {0..i}" by simp
    with h have "P (ls ! k')" by blast
    with Suc show ?thesis by simp
  qed
qed

lemma in_region_0: "in_region (l # ls) 0 = opens_region l"
  by (simp add: in_region_def)

lemma in_region_Suc:
  "in_region (l # ls) (Suc i)
     = ((opens_region l \<and> (\<forall>k \<in> {0..i}. \<not> closes_region (ls ! k))) \<or> in_region ls i)"
proof
  assume "in_region (l # ls) (Suc i)"
  then obtain j where j: "j \<in> {0..Suc i}" "opens_region ((l # ls) ! j)"
    and nc: "\<forall>k \<in> {Suc j..Suc i}. \<not> closes_region ((l # ls) ! k)"
    unfolding in_region_def by blast
  show "(opens_region l \<and> (\<forall>k \<in> {0..i}. \<not> closes_region (ls ! k))) \<or> in_region ls i"
  proof (cases j)
    case 0
    with j(2) have "opens_region l" by simp
    moreover from nc 0 have "\<forall>k \<in> {0..i}. \<not> closes_region (ls ! k)"
      using ball_shift[of 0 i "\<lambda>x. \<not> closes_region x" l ls] by blast
    ultimately show ?thesis by blast
  next
    case (Suc j')
    with j have "j' \<in> {0..i}" "opens_region (ls ! j')" by simp_all
    moreover from nc Suc have "\<forall>k \<in> {Suc j'..i}. \<not> closes_region (ls ! k)"
      using ball_shift[of "Suc j'" i "\<lambda>x. \<not> closes_region x" l ls] by blast
    ultimately show ?thesis unfolding in_region_def by blast
  qed
next
  assume "(opens_region l \<and> (\<forall>k \<in> {0..i}. \<not> closes_region (ls ! k))) \<or> in_region ls i"
  then show "in_region (l # ls) (Suc i)"
  proof
    assume a: "opens_region l \<and> (\<forall>k \<in> {0..i}. \<not> closes_region (ls ! k))"
    then have "\<forall>k \<in> {Suc 0..Suc i}. \<not> closes_region ((l # ls) ! k)"
      using ball_shift[of 0 i "\<lambda>x. \<not> closes_region x" l ls] by blast
    moreover have "0 \<in> {0..Suc i}" by simp
    moreover from a have "opens_region ((l # ls) ! 0)" by simp
    ultimately show ?thesis unfolding in_region_def by blast
  next
    assume "in_region ls i"
    then obtain j where j: "j \<in> {0..i}" "opens_region (ls ! j)"
      and nc: "\<forall>k \<in> {Suc j..i}. \<not> closes_region (ls ! k)"
      unfolding in_region_def by blast
    from nc have "\<forall>k \<in> {Suc (Suc j)..Suc i}. \<not> closes_region ((l # ls) ! k)"
      using ball_shift[of "Suc j" i "\<lambda>x. \<not> closes_region x" l ls] by blast
    moreover from j have "Suc j \<in> {0..Suc i}" "opens_region ((l # ls) ! Suc j)" by simp_all
    ultimately show ?thesis unfolding in_region_def by blast
  qed
qed

lemma region_tracking:
  "i < length ls \<Longrightarrow>
   sanitize_lines b ls ! i
     = (if in_region ls i \<or> (b \<and> (\<forall>k \<in> {0..i}. \<not> closes_region (ls ! k)))
        then ls ! i else stripLinksFromMarkdown (ls ! i))"
proof (induction ls arbitrary: b i)
  case Nil
  then show ?case by simp
next
  case (Cons l ls)
  show ?case
  proof (cases i)
    case 0
    then show ?thesis
      by (simp add: in_region_0 Let_def opens_region_def closes_region_def)
  next
    case (Suc i')
    with Cons.prems have i': "i' < length ls" by simp
    have sh: "(\<forall>k \<in> {0..Suc i'}. \<not> closes_region ((l # ls) ! k))
                = (\<not> closes_region l \<and> (\<forall>k \<in> {0..i'}. \<not> closes_region (ls ! k)))"
      by (rule ball_from_0)
    show ?thesis
    proof (cases "opens_region l")
      case True
      then have "sanitize_lines b (l # ls) ! i = sanitize_lines True ls ! i'"
        by (simp add: Suc Let_def opens_region_def)
      also note Cons.IH[OF i', of True]
      finally show ?thesis using True by (auto simp: Suc in_region_Suc sh)
    next
      case False
      then have "sanitize_lines b (l # ls) ! i
                   = sanitize_lines (if closes_region l then False else b) ls ! i'"
        by (simp add: Suc Let_def opens_region_def closes_region_def)
      also note Cons.IH[OF i', of "if closes_region l then False else b"]
      finally show ?thesis using False by (auto simp: Suc in_region_Suc sh)
    qed
  qed
qed

lemma starts_link_http: "starts_link (''http://'' @ c # r) = is_urlchar c"
proof -
  have "ci CHR ''h'' CHR ''h''" "ci CHR ''t'' CHR ''t''" "ci CHR ''p'' CHR ''p''"
    "ci CHR '':'' CHR '':''" "ci CHR ''/'' CHR ''/''" "\<not> ci CHR ''s'' CHR '':''"
    by (simp_all add: ci_def char_eq_i upper_scheme_chars)
  then show ?thesis by (simp add: starts_link_def)
qed

lemma starts_link_https: "starts_link (''https://'' @ c # r) = is_urlchar c"
proof -
  have "ci CHR ''h'' CHR ''h''" "ci CHR ''t'' CHR ''t''" "ci CHR ''p'' CHR ''p''"
    "ci CHR '':'' CHR '':''" "ci CHR ''/'' CHR ''/''" "ci CHR ''s'' CHR ''s''"
    by (simp_all add: ci_def char_eq_i upper_scheme_chars)
  then show ?thesis by (simp add: starts_link_def)
qed

lemma no_link_explicit:
  assumes "\<not> has_link out" "out = pre @ ''http://'' @ c # r \<or> out = pre @ ''https://'' @ c # r"
  shows "\<not> is_urlchar c"
proof
  assume u: "is_urlchar c"
  from assms(2) have "contains_link out"
  proof
    assume o: "out = pre @ ''http://'' @ c # r"
    have "starts_link (''http://'' @ c # r)" using u by (simp only: starts_link_http)
    then have "contains_link (''http://'' @ c # r)" by simp
    then show ?thesis unfolding o by (rule contains_link_append2)
  next
    assume o: "out = pre @ ''https://'' @ c # r"
    have "starts_link (''https://'' @ c # r)" using u by (simp only: starts_link_https)
    then have "contains_link (''https://'' @ c # r)" by simp
    then show ?thesis unfolding o by (rule contains_link_append2)
  qed
  with assms(1) show False by (simp add: has_link_iff)
qed

text \<open>
  Claim C1, as amended.  \<open>stripLinksExceptRecommendedResources\<close> joins one image per
  line, collapses runs of three or more line breaks and trims the whole text.  The image of
  a line inside a Recommended Resources region is the line itself.  The image of a line
  outside is \<open>stripLinksFromMarkdown\<close> of the line; the expression for bare links no longer
  matches in it, so every \<open>http://\<close> or \<open>https://\<close> left in it is followed by white
  space, by a closing parenthesis or by nothing.
\<close>

theorem region_policy:
  assumes "md \<noteq> []" and "ls = split f_none line_break_rx md" and "i < length ls"
  shows "stripLinksExceptRecommendedResources md
           = trim (replace_all f_none newlines_rx (const_repl (NL @ NL))
                     (join NL (sanitize_lines False ls)))
       \<and> length (sanitize_lines False ls) = length ls
       \<and> (in_region ls i \<longrightarrow> sanitize_lines False ls ! i = ls ! i)
       \<and> (\<not> in_region ls i \<longrightarrow>
            sanitize_lines False ls ! i = stripLinksFromMarkdown (ls ! i)
            \<and> \<not> has_link (sanitize_lines False ls ! i)
            \<and> (\<forall>pre c r. sanitize_lines False ls ! i = pre @ ''http://'' @ c # r
                          \<or> sanitize_lines False ls ! i = pre @ ''https://'' @ c # r
                          \<longrightarrow> is_space c \<or> c = CHR '')''))"
proof -
  have img: "sanitize_lines False ls ! i
               = (if in_region ls i then ls ! i else stripLinksFromMarkdown (ls ! i))"
    using region_tracking[OF assms(3), of False] by simp
  have nl: "\<not> has_link (stripLinksFromMarkdown (ls ! i))" by (rule stripped_has_no_link)
  have ex: "is_space c \<or> c = CHR '')''"
    if "stripLinksFromMarkdown (ls ! i) = pre @ ''http://'' @ c # r
        \<or> stripLinksFromMarkdown (ls ! i) = pre @ ''https://'' @ c # r" for pre c r
    using no_link_explicit[OF nl that] by (simp add: is_urlchar_def)
  show ?thesis
    using assms(1,2) img nl ex
    by (auto simp: stripLinksExceptRecommendedResources_def length_sanitize_lines)
qed


lemma doc_links_facts:
  "doc_lines = split f_none line_break_rx doc_links
   \<and> \<not> in_region doc_lines 1 \<and> in_region doc_lines 3
   \<and> stripLinksFromMarkdown (doc_lines ! 1) = ''- read now''"
  by code_simp

theorem region_policy_witness:
  "doc_links \<noteq> [] \<and> doc_lines = split f_none line_break_rx doc_links
   \<and> 1 < length doc_lines \<and> 3 < length doc_lines
   \<and> \<not> in_region doc_lines 1
   \<and> sanitize_lines False doc_lines ! 1 = ''- read now''
   \<and> \<not> has_link (sanitize_lines False doc_lines ! 1)
   \<and> in_region doc_lines 3
   \<and> sanitize_lines False doc_lines ! 3 = doc_lines ! 3"
proof -
  have ne: "doc_links \<noteq> []" by (simp add: doc_links_def)
  have ls: "doc_lines = split f_none line_break_rx doc_links" using doc_links_facts by blast
  have i1: "1 < length doc_lines" and i3: "3 < length doc_lines" by (simp_all add: doc_lines_def)
  have r1: "\<not> in_region doc_lines 1" and r3: "in_region doc_lines 3"
    and s1: "stripLinksFromMarkdown (doc_lines ! 1) = ''- read now''"
    using doc_links_facts by blast+
  from region_policy[OF ne ls i1] r1
  have a: "sanitize_lines False doc_lines ! 1 = stripLinksFromMarkdown (doc_lines ! 1)"
    and b: "\<not> has_link (sanitize_lines False doc_lines ! 1)" by blast+
  from region_policy[OF ne ls i3] r3
  have c: "sanitize_lines False doc_lines ! 3 = doc_lines ! 3" by blast
  from a s1 have a': "sanitize_lines False doc_lines ! 1 = ''- read now''" by (rule trans)
  from ne ls i1 i3 r1 a' b r3 c show ?thesis by blast
qed

text \<open>
  Claim C1 as stated fails twice.  Outside a region, a line with a link and a bare
  \<open>http://\<close> keeps the latter in its output.  Inside a region, the last line loses its
  trailing spaces under the final trim of the whole text.
\<close>

theorem region_policy_counterexample:
  "\<not> in_region [''see http://a.b http://''] 0
   \<and> stripLinksExceptRecommendedResources ''see http://a.b http://'' = ''see http://''
   \<and> in_region [''Recommended Resources'', ''- https://a.b  ''] 1
   \<and> stripLinksExceptRecommendedResources (''Recommended Resources'' @ NL @ ''- https://a.b  '')
       = ''Recommended Resources'' @ NL @ ''- https://a.b''"
  by code_simp

end
